theory Spec2Isabelle
  imports Main "HOL-Library.Multiset" "HOL-Library.Sublist"
begin

section \<open>Strings, errors and the interpreter's built-ins\<close>

text \<open>
  A Python \<open>str\<close> is a sequence of Unicode code points, and \<open>split\<close>, \<open>re.sub\<close>,
  \<open>==\<close> and \<open>in\<close> work on code points. A string is therefore a list of code points
  (natural numbers); \<open>lit\<close> turns an ASCII literal into such a list.
\<close>

type_synonym codepoint = nat
type_synonym pystr = "codepoint list"

definition lit :: "string \<Rightarrow> pystr" where
  "lit s = map of_char s"

text \<open>
  The exceptions that reach the functions of \<open>seller.py\<close> and \<open>market.py\<close>:
  \<open>ValueError\<close> from \<open>int\<close> and from \<open>range\<close> with step zero, and the exceptions of
  the \<open>requests\<close> library raised by the transport.
\<close>

datatype error = ValueError | HTTPError | ConnectionError | ReadTimeout

definition is_digit :: "codepoint \<Rightarrow> bool" where
  "is_digit c = (48 \<le> c \<and> c \<le> 57)"

text \<open>
  \<open>int(s)\<close> for a string, in base 10, as CPython 3.11 computes it. Whitespace is
  dropped at both ends: the ASCII characters tab, line feed, vertical tab, form feed,
  carriage return and space, and the whitespace characters beyond ASCII. The separators
  U+001C to U+001F are not dropped (\<open>int\<close> never treats a character below 127 as
  whitespace unless it is one of the six above).
\<close>

definition space_chars :: "codepoint list" where
  "space_chars = [9, 10, 11, 12, 13, 32, 133, 160, 5760, 8192, 8193, 8194, 8195, 8196, 8197,
     8198, 8199, 8200, 8201, 8202, 8232, 8233, 8239, 8287, 12288]"

definition is_space :: "codepoint \<Rightarrow> bool" where
  "is_space c = (c \<in> set space_chars)"

text \<open>
  A digit is any character with a decimal digit value in the Unicode database of the
  interpreter (version 14.0): the digits of every script come in runs of ten, and
  \<open>decimal_zeros\<close> lists the zero of each run.
\<close>

definition decimal_zeros :: "codepoint list" where
  "decimal_zeros = [48, 1632, 1776, 1984, 2406, 2534, 2662, 2790, 2918, 3046, 3174, 3302, 3430,
     3558, 3664, 3792, 3872, 4160, 4240, 6112, 6160, 6470, 6608, 6784, 6800, 6992, 7088, 7232,
     7248, 42528, 43216, 43264, 43472, 43504, 43600, 44016, 65296, 66720, 68912, 69734, 69872,
     69942, 70096, 70384, 70736, 70864, 71248, 71360, 71472, 71904, 72016, 72784, 73040, 73120,
     92768, 92864, 93008, 120782, 120792, 120802, 120812, 120822, 123200, 123632, 125264,
     130032]"

definition digit_value :: "codepoint \<Rightarrow> nat option" where
  "digit_value c = map_option (\<lambda>z. c - z) (find (\<lambda>z. z \<le> c \<and> c < z + 10) decimal_zeros)"

text \<open>
  After the whitespace one sign is allowed, then at least one digit, with single
  underscores allowed between digits. The scan returns the value and the number of
  digits; more than 4300 digits (the interpreter's default limit) raise \<open>ValueError\<close>,
  as does anything that is not of this form.
\<close>

fun digit_run :: "nat \<Rightarrow> nat \<Rightarrow> pystr \<Rightarrow> (nat \<times> nat) option" where
  "digit_run acc n [] = Some (acc, n)"
| "digit_run acc n (c # cs) =
     (case digit_value c of
        Some d \<Rightarrow> digit_run (10 * acc + d) (Suc n) cs
      | None \<Rightarrow>
          if c = 95 then
            (case cs of
               [] \<Rightarrow> None
             | e # es \<Rightarrow>
                 (case digit_value e of
                    Some d \<Rightarrow> digit_run (10 * acc + d) (Suc n) es
                  | None \<Rightarrow> None))
          else None)"

definition digits_value :: "pystr \<Rightarrow> (nat \<times> nat) option" where
  "digits_value s =
     (case s of
        [] \<Rightarrow> None
      | c # cs \<Rightarrow>
          (case digit_value c of
             None \<Rightarrow> None
           | Some d \<Rightarrow> digit_run d 1 cs))"

definition strip :: "pystr \<Rightarrow> pystr" where
  "strip s = rev (dropWhile is_space (rev (dropWhile is_space s)))"

definition max_str_digits :: nat where
  "max_str_digits = 4300"

definition py_int :: "pystr \<Rightarrow> error + int" where
  "py_int s =
     (let t = strip s;
          neg = (t \<noteq> [] \<and> hd t = 45);
          body = (if t \<noteq> [] \<and> (hd t = 45 \<or> hd t = 43) then tl t else t)
      in case digits_value body of
           None \<Rightarrow> Inl ValueError
         | Some (v, n) \<Rightarrow>
             if max_str_digits < n then Inl ValueError
             else Inr (if neg then - int v else int v))"

text \<open>
  \<open>s.split(sep)\<close> for a one-character separator: the pieces between the separators,
  always at least one piece.
\<close>

fun split :: "codepoint \<Rightarrow> pystr \<Rightarrow> pystr list" where
  "split sep [] = [[]]"
| "split sep (c # cs) =
     (if c = sep then [] # split sep cs
      else (case split sep cs of
              [] \<Rightarrow> [[c]]
            | p # ps \<Rightarrow> (c # p) # ps))"

text \<open>
  \<open>re.sub(pattern, repl, s)\<close> for a pattern that is one character class: every
  character of the class is replaced by \<open>repl\<close>, the others are kept.
\<close>

definition re_sub :: "(codepoint \<Rightarrow> bool) \<Rightarrow> pystr \<Rightarrow> pystr \<Rightarrow> pystr" where
  "re_sub cls repl s = concat (map (\<lambda>c. if cls c then repl else [c]) s)"

text \<open>
  \<open>range(start, stop, step)\<close> as the list of its values; step zero raises
  \<open>ValueError\<close>. The number of values is computed as the interpreter computes it.
\<close>

definition range_len :: "int \<Rightarrow> int \<Rightarrow> int \<Rightarrow> nat" where
  "range_len start stop step =
     (if 0 < step \<and> start < stop then nat ((stop - start - 1) div step + 1)
      else if step < 0 \<and> stop < start then nat ((start - stop - 1) div (- step) + 1)
      else 0)"

definition range_py :: "int \<Rightarrow> int \<Rightarrow> int \<Rightarrow> error + int list" where
  "range_py start stop step =
     (if step = 0 then Inl ValueError
      else Inr (map (\<lambda>k. start + int k * step) [0 ..< range_len start stop step]))"

text \<open>
  The slice \<open>lst[i:j]\<close>: a negative bound counts from the end, and both bounds are
  clamped to the list.
\<close>

definition clamp_index :: "nat \<Rightarrow> int \<Rightarrow> nat" where
  "clamp_index len i = (if i < 0 then nat (max (int len + i) 0) else min (nat i) len)"

definition slice :: "'a list \<Rightarrow> int \<Rightarrow> int \<Rightarrow> 'a list" where
  "slice lst i j =
     (let lo = clamp_index (length lst) i; hi = clamp_index (length lst) j
      in take (hi - lo) (drop lo lst))"


section \<open>The feed and the payload records\<close>

text \<open>
  One row of the vendor's spreadsheet, with the three columns the programs read
  (code, quantity and price, under Cyrillic keys). The cells are strings, so \<open>str\<close> of a cell
  is the cell.
\<close>

record watch =
  w_code :: pystr
  w_count :: pystr
  w_price :: pystr

text \<open>The stock payload of \<open>seller.py\<close>: \<open>{"offer_id": ..., "stock": ...}\<close>.\<close>

record stock_rec =
  offer_id :: pystr
  stock :: int



text \<open>The price payload of \<open>seller.py\<close>.\<close>

record price_rec =
  auto_action_enabled :: pystr
  currency_code :: pystr
  price_offer_id :: pystr
  old_price :: pystr
  price :: pystr


text \<open>The price payload of \<open>market.py\<close>: an id and a price with value and currency.\<close>

record market_price_value =
  value_py :: int
  currencyId :: pystr

record market_price_rec =
  id_py :: pystr
  price_py :: market_price_value


section \<open>seller.py: price_conversion and divide\<close>

definition price_conversion :: "pystr \<Rightarrow> pystr" where
  "price_conversion p = re_sub (\<lambda>c. \<not> is_digit c) [] (hd (split 46 p))"

definition divide_py :: "'a list \<Rightarrow> int \<Rightarrow> error + 'a list list" where
  "divide_py lst n =
     (case range_py 0 (int (length lst)) n of
        Inl e \<Rightarrow> Inl e
      | Inr is \<Rightarrow> Inr (map (\<lambda>i. slice lst i (i + n)) is))"


section \<open>create_stocks and create_prices\<close>

text \<open>
  The branch of \<open>create_stocks\<close> that turns the quantity cell into a stock count
  (the same lines in both programs).
\<close>

definition normalize_quantity :: "pystr \<Rightarrow> error + int" where
  "normalize_quantity cnt =
     (if cnt = lit ''>10'' then Inr 100
      else if cnt = lit ''1'' then Inr 0
      else py_int cnt)"

text \<open>
  The first loop of \<open>create_stocks\<close>. The list \<open>offer_ids\<close> is the caller's list and
  \<open>offer_ids.remove\<close> changes it in place, so the loop returns it next to the result,
  also when \<open>int\<close> raises in the middle of the feed.
\<close>

fun stocks_loop ::
  "watch list \<Rightarrow> stock_rec list \<Rightarrow> pystr list \<Rightarrow> (error + stock_rec list) \<times> pystr list" where
  "stocks_loop [] stocks offer_ids = (Inr stocks, offer_ids)"
| "stocks_loop (w # ws) stocks offer_ids =
     (if w_code w \<in> set offer_ids then
        (case normalize_quantity (w_count w) of
           Inl e \<Rightarrow> (Inl e, offer_ids)
         | Inr s \<Rightarrow>
             stocks_loop ws (stocks @ [\<lparr>offer_id = w_code w, stock = s\<rparr>])
               (remove1 (w_code w) offer_ids))
      else stocks_loop ws stocks offer_ids)"

definition create_stocks ::
  "watch list \<Rightarrow> pystr list \<Rightarrow> (error + stock_rec list) \<times> pystr list" where
  "create_stocks watch_remnants offer_ids =
     (case stocks_loop watch_remnants [] offer_ids of
        (Inl e, ids) \<Rightarrow> (Inl e, ids)
      | (Inr stocks, ids) \<Rightarrow>
          (Inr (stocks @ map (\<lambda>i. \<lparr>offer_id = i, stock = 0\<rparr>) ids), ids))"




text \<open>\<open>create_prices\<close> of \<open>seller.py\<close>; it reads \<open>offer_ids\<close> and does not change it.\<close>

definition seller_price :: "watch \<Rightarrow> price_rec" where
  "seller_price w =
     \<lparr>auto_action_enabled = lit ''UNKNOWN'', currency_code = lit ''RUB'',
      price_offer_id = w_code w, old_price = lit ''0'',
      price = price_conversion (w_price w)\<rparr>"

fun create_prices :: "watch list \<Rightarrow> pystr list \<Rightarrow> price_rec list" where
  "create_prices [] offer_ids = []"
| "create_prices (w # ws) offer_ids =
     (if w_code w \<in> set offer_ids then seller_price w # create_prices ws offer_ids
      else create_prices ws offer_ids)"

text \<open>
  \<open>create_prices\<close> of \<open>market.py\<close> turns the converted price into a number with
  \<open>int\<close>, which raises when the string is not a number.
\<close>

fun market_create_prices :: "watch list \<Rightarrow> pystr list \<Rightarrow> error + market_price_rec list" where
  "market_create_prices [] offer_ids = Inr []"
| "market_create_prices (w # ws) offer_ids =
     (if w_code w \<in> set offer_ids then
        (case py_int (price_conversion (w_price w)) of
           Inl e \<Rightarrow> Inl e
         | Inr v \<Rightarrow>
             (case market_create_prices ws offer_ids of
                Inl e \<Rightarrow> Inl e
              | Inr prices \<Rightarrow>
                  Inr (\<lparr>id_py = w_code w,
                        price_py = \<lparr>value_py = v, currencyId = lit ''RUR''\<rparr>\<rparr> # prices)))
      else market_create_prices ws offer_ids)"


section \<open>Paging through the catalogue: get_offer_ids\<close>

text \<open>
  The HTTP calls (\<open>get_product_list\<close>, \<open>update_stocks\<close>, \<open>update_price\<close>,
  \<open>download_stock\<close>) talk to the outside. Each is a parameter of the model: a function
  that takes its argument and the state of the outside world and returns either the
  exception it raises or its result, together with the new state of the world. The
  credentials are part of that function.

  One page of the seller's product list (\<open>items\<close>, \<open>total\<close>, \<open>last_id\<close>) and one
  page of the market's (\<open>offerMappingEntries\<close> and \<open>paging.nextPageToken\<close>, which is
  \<open>None\<close> when there is no token).
\<close>

record product =
  product_offer_id :: pystr

record seller_page =
  result_items :: "product list"
  result_total :: int
  result_last_id :: pystr

record entry =
  shopSku :: pystr

record market_page =
  offerMappingEntries :: "entry list"
  nextPageToken :: "pystr option"

text \<open>
  The \<open>while True\<close> loop of \<open>get_offer_ids\<close> in \<open>seller.py\<close>. Nothing bounds the
  number of pages, so the loop is a partial function: \<open>None\<close> is the run that never
  leaves the loop.
\<close>

partial_function (option) product_list_loop ::
  "(pystr \<Rightarrow> 'w \<Rightarrow> (error + seller_page) \<times> 'w) \<Rightarrow> pystr \<Rightarrow> product list \<Rightarrow> 'w
     \<Rightarrow> ((error + product list) \<times> 'w) option" where
  "product_list_loop get_product_list last_id product_list w =
     (case get_product_list last_id w of
        (Inl e, w') \<Rightarrow> Some (Inl e, w')
      | (Inr some_prod, w') \<Rightarrow>
          (let product_list' = product_list @ result_items some_prod
           in if result_total some_prod = int (length product_list')
              then Some (Inr product_list', w')
              else product_list_loop get_product_list (result_last_id some_prod)
                     product_list' w'))"

definition get_offer_ids ::
  "(pystr \<Rightarrow> 'w \<Rightarrow> (error + seller_page) \<times> 'w) \<Rightarrow> 'w
     \<Rightarrow> ((error + pystr list) \<times> 'w) option" where
  "get_offer_ids get_product_list w =
     (case product_list_loop get_product_list [] [] w of
        None \<Rightarrow> None
      | Some (Inl e, w') \<Rightarrow> Some (Inl e, w')
      | Some (Inr product_list, w') \<Rightarrow> Some (Inr (map product_offer_id product_list), w'))"

text \<open>The loop of \<open>get_offer_ids\<close> in \<open>market.py\<close>; \<open>not page\<close> holds for \<open>None\<close>
  and for the empty string.\<close>

partial_function (option) market_product_list_loop ::
  "(pystr \<Rightarrow> 'w \<Rightarrow> (error + market_page) \<times> 'w) \<Rightarrow> pystr \<Rightarrow> entry list \<Rightarrow> 'w
     \<Rightarrow> ((error + entry list) \<times> 'w) option" where
  "market_product_list_loop get_product_list page product_list w =
     (case get_product_list page w of
        (Inl e, w') \<Rightarrow> Some (Inl e, w')
      | (Inr some_prod, w') \<Rightarrow>
          (let product_list' = product_list @ offerMappingEntries some_prod
           in case nextPageToken some_prod of
                None \<Rightarrow> Some (Inr product_list', w')
              | Some page' \<Rightarrow>
                  if page' = [] then Some (Inr product_list', w')
                  else market_product_list_loop get_product_list page' product_list' w'))"

definition market_get_offer_ids ::
  "(pystr \<Rightarrow> 'w \<Rightarrow> (error + market_page) \<times> 'w) \<Rightarrow> 'w
     \<Rightarrow> ((error + pystr list) \<times> 'w) option" where
  "market_get_offer_ids get_product_list w =
     (case market_product_list_loop get_product_list [] [] w of
        None \<Rightarrow> None
      | Some (Inl e, w') \<Rightarrow> Some (Inl e, w')
      | Some (Inr product_list, w') \<Rightarrow> Some (Inr (map shopSku product_list), w'))"


section \<open>Submitting the batches: upload_stocks and main\<close>

text \<open>
  \<open>for some in list(divide(lst, n)): update(some, ...)\<close>: the batches are all built
  first, then sent one after the other; the first exception ends the loop.
\<close>

fun for_each ::
  "('b \<Rightarrow> 'w \<Rightarrow> (error + 'r) \<times> 'w) \<Rightarrow> 'b list \<Rightarrow> 'w \<Rightarrow> (error + unit) \<times> 'w" where
  "for_each update [] w = (Inr (), w)"
| "for_each update (b # bs) w =
     (case update b w of
        (Inl e, w') \<Rightarrow> (Inl e, w')
      | (Inr r, w') \<Rightarrow> for_each update bs w')"

definition submit_batches ::
  "('a list \<Rightarrow> 'w \<Rightarrow> (error + 'r) \<times> 'w) \<Rightarrow> 'a list \<Rightarrow> int \<Rightarrow> 'w \<Rightarrow> (error + unit) \<times> 'w" where
  "submit_batches update lst n w =
     (case divide_py lst n of
        Inl e \<Rightarrow> (Inl e, w)
      | Inr batches \<Rightarrow> for_each update batches w)"

definition upload_stocks ::
  "(pystr \<Rightarrow> 'w \<Rightarrow> (error + seller_page) \<times> 'w)
     \<Rightarrow> (stock_rec list \<Rightarrow> 'w \<Rightarrow> (error + 'r) \<times> 'w)
     \<Rightarrow> watch list \<Rightarrow> 'w \<Rightarrow> ((error + stock_rec list \<times> stock_rec list) \<times> 'w) option" where
  "upload_stocks get_product_list update_stocks watch_remnants w =
     (case get_offer_ids get_product_list w of
        None \<Rightarrow> None
      | Some (Inl e, w1) \<Rightarrow> Some (Inl e, w1)
      | Some (Inr offer_ids, w1) \<Rightarrow>
          (case create_stocks watch_remnants offer_ids of
             (Inl e, ids) \<Rightarrow> Some (Inl e, w1)
           | (Inr stocks, ids) \<Rightarrow>
               (case submit_batches update_stocks stocks 100 w1 of
                  (Inl e, w2) \<Rightarrow> Some (Inl e, w2)
                | (Inr u, w2) \<Rightarrow>
                    Some (Inr (filter (\<lambda>s. stock s \<noteq> 0) stocks, stocks), w2))))"

text \<open>
  The body of the \<open>try\<close> in \<open>main\<close> of \<open>seller.py\<close>. The list that
  \<open>create_stocks\<close> has changed is the list that \<open>create_prices\<close> receives. The
  handlers of \<open>main\<close> print the exception that ends the body.
\<close>

definition main_try ::
  "(pystr \<Rightarrow> 'w \<Rightarrow> (error + seller_page) \<times> 'w)
     \<Rightarrow> ('w \<Rightarrow> (error + watch list) \<times> 'w)
     \<Rightarrow> (stock_rec list \<Rightarrow> 'w \<Rightarrow> (error + 'r) \<times> 'w)
     \<Rightarrow> (price_rec list \<Rightarrow> 'w \<Rightarrow> (error + 'r) \<times> 'w)
     \<Rightarrow> 'w \<Rightarrow> ((error + unit) \<times> 'w) option" where
  "main_try get_product_list download_stock update_stocks update_price w =
     (case get_offer_ids get_product_list w of
        None \<Rightarrow> None
      | Some (Inl e, w1) \<Rightarrow> Some (Inl e, w1)
      | Some (Inr offer_ids, w1) \<Rightarrow>
          (case download_stock w1 of
             (Inl e, w2) \<Rightarrow> Some (Inl e, w2)
           | (Inr watch_remnants, w2) \<Rightarrow>
               (case create_stocks watch_remnants offer_ids of
                  (Inl e, ids) \<Rightarrow> Some (Inl e, w2)
                | (Inr stocks, ids) \<Rightarrow>
                    (case submit_batches update_stocks stocks 100 w2 of
                       (Inl e, w3) \<Rightarrow> Some (Inl e, w3)
                     | (Inr u, w3) \<Rightarrow>
                         Some (submit_batches update_price
                                 (create_prices watch_remnants ids) 900 w3)))))"

text \<open>
  To say which batches were sent, a client is wrapped so that it also appends every
  batch it is called with to a log kept next to the state of the world.
\<close>

definition logged ::
  "('b \<Rightarrow> 'w \<Rightarrow> 'r \<times> 'w) \<Rightarrow> 'b \<Rightarrow> 'w \<times> 'b list \<Rightarrow> 'r \<times> ('w \<times> 'b list)" where
  "logged update b s = (case update b (fst s) of (r, w') \<Rightarrow> (r, (w', snd s @ [b])))"

text \<open>The state of the world after the client has been called with the batches \<open>bs\<close>.\<close>

definition world_after :: "('b \<Rightarrow> 'w \<Rightarrow> 'r \<times> 'w) \<Rightarrow> 'b list \<Rightarrow> 'w \<Rightarrow> 'w" where
  "world_after update bs w = fold (\<lambda>b v. snd (update b v)) bs w"

text \<open>
  The result of call number \<open>j\<close> (from 0) when the client is called with the batches
  \<open>bs\<close>, one after the other, starting in the world \<open>w\<close>.
\<close>

definition call_result :: "('b \<Rightarrow> 'w \<Rightarrow> (error + 'r) \<times> 'w) \<Rightarrow> 'b list \<Rightarrow> 'w \<Rightarrow> nat \<Rightarrow> error + 'r" where
  "call_result update bs w j = fst (update (bs ! j) (world_after update (take j bs) w))"



section \<open>Reference notions for integer literals\<close>

text \<open>
  These definitions are not code of the programs; they say what a base-10 integer
  literal is, for comparison with \<open>py_int\<close>. A string of digits denotes a number in
  base 10. An integer literal is whitespace, at most one sign, one or more non-empty
  groups of digits joined by single underscores, whitespace; it has at most 4300 digits,
  and its value is the number that the digits denote, negated after a minus sign.
\<close>

definition decimal :: "pystr \<Rightarrow> nat" where
  "decimal g = foldl (\<lambda>a c. 10 * a + the (digit_value c)) 0 g"

fun join :: "'a list \<Rightarrow> 'a list list \<Rightarrow> 'a list" where
  "join sep [] = []"
| "join sep [g] = g"
| "join sep (g # h # gs) = g @ sep @ join sep (h # gs)"

definition digit_group :: "pystr \<Rightarrow> bool" where
  "digit_group g = (g \<noteq> [] \<and> list_all (\<lambda>c. digit_value c \<noteq> None) g)"

definition int_literal :: "pystr \<Rightarrow> int \<Rightarrow> bool" where
  "int_literal t v =
     (\<exists>l sgn gs r. t = l @ sgn @ join [95] gs @ r
        \<and> list_all is_space l \<and> list_all is_space r
        \<and> (sgn = [] \<or> sgn = [43] \<or> sgn = [45])
        \<and> gs \<noteq> [] \<and> list_all digit_group gs
        \<and> length (concat gs) \<le> max_str_digits
        \<and> v = (if sgn = [45] then - int (decimal (concat gs)) else int (decimal (concat gs))))"

abbreviation (input) step :: "nat \<Rightarrow> codepoint \<Rightarrow> nat" where
  "step a c \<equiv> 10 * a + the (digit_value c)"

section \<open>Reference notions for the reconciliation\<close>

text \<open>
  These definitions are not code of the programs; the properties below are stated with
  them. A feed record is \<^emph>\<open>matched\<close> when fewer records with its code come before
  it in the feed than the list of known offers has copies of that code. \<open>seen\<close> is the
  part of the feed already passed; the list of offers is never changed here.
\<close>

fun matched_from :: "watch list \<Rightarrow> watch list \<Rightarrow> pystr list \<Rightarrow> watch list" where
  "matched_from seen [] K = []"
| "matched_from seen (w # ws) K =
     (if count_list (map w_code seen) (w_code w) < count_list K (w_code w)
      then w # matched_from (seen @ [w]) ws K
      else matched_from (seen @ [w]) ws K)"

definition matched :: "watch list \<Rightarrow> pystr list \<Rightarrow> watch list" where
  "matched F K = matched_from [] F K"

text \<open>The quantity cell of a record parses, and the stock record it then gives.\<close>

definition parses :: "watch \<Rightarrow> bool" where
  "parses w = (\<not> isl (normalize_quantity (w_count w)))"

definition matched_stock :: "watch \<Rightarrow> stock_rec" where
  "matched_stock w = \<lparr>offer_id = w_code w, stock = projr (normalize_quantity (w_count w))\<rparr>"

text \<open>The zero-fill record of an offer, and a seller stock record in the market's shape.\<close>

definition zero_stock :: "pystr \<Rightarrow> stock_rec" where
  "zero_stock i = \<lparr>offer_id = i, stock = 0\<rparr>"



text \<open>
  The page-fetch capability \<^emph>\<open>serves\<close> the pages \<open>ps\<close>: asked with the cursor
  \<open>c\<close> in the world \<open>w\<close> it answers with the first page, asked then with the cursor
  that follows that page it answers with the second, and so on, no request failing. The
  result is the world after the last of these requests.
\<close>

fun serve ::
  "(pystr \<Rightarrow> 'w \<Rightarrow> (error + 'p) \<times> 'w) \<Rightarrow> ('p \<Rightarrow> pystr) \<Rightarrow> pystr \<Rightarrow> 'w \<Rightarrow> 'p list \<Rightarrow> 'w option" where
  "serve fetch next_cursor c w [] = Some w"
| "serve fetch next_cursor c w (p # ps) =
     (case fetch c w of
        (Inl e, w') \<Rightarrow> None
      | (Inr p', w') \<Rightarrow> if p' = p then serve fetch next_cursor (next_cursor p) w' ps else None)"

text \<open>
  For the market: the cursor that follows a page, and the pages that end the paging
  (no token, or the empty token).
\<close>

definition token_cursor :: "market_page \<Rightarrow> pystr" where
  "token_cursor p = (case nextPageToken p of None \<Rightarrow> [] | Some t \<Rightarrow> t)"

definition no_more :: "market_page \<Rightarrow> bool" where
  "no_more p = (nextPageToken p = None \<or> nextPageToken p = Some [])"


section \<open>Properties of price_conversion\<close>

lemma split_not_Nil: "split sep s \<noteq> []"
  by (induction s) (auto split: list.splits)

lemma hd_split: "hd (split sep s) = takeWhile (\<lambda>c. c \<noteq> sep) s"
  by (induction s) (auto split: list.splits simp: split_not_Nil)

lemma re_sub_delete: "re_sub (\<lambda>c. \<not> keep c) [] s = filter keep s"
  by (induction s) (auto simp: re_sub_def)

lemma price_conversion_eq:
  "price_conversion p = filter is_digit (takeWhile (\<lambda>c. c \<noteq> 46) p)"
  by (simp add: price_conversion_def hd_split re_sub_delete)

text \<open>
  Claim C4. \<open>price_conversion\<close> cuts the token at the first \<open>.\<close> (code point 46),
  deletes from what is left every character that is not an ASCII digit, and returns the
  digits: \<open>"5'990.00 rub."\<close> gives \<open>"5990"\<close>, \<open>"1234.56 USD"\<close> gives
  \<open>"1234"\<close> and \<open>"10'000.50 rub."\<close> gives \<open>"10000"\<close> (the three letters
  written \<open>rub\<close> here are Cyrillic, the code points 1088, 1091 and 1073).
\<close>

theorem price_conversion_truncates_then_strips:
  "price_conversion p = filter is_digit (takeWhile (\<lambda>c. c \<noteq> 46) p)
   \<and> price_conversion (lit ''5'990.00 '' @ [1088, 1091, 1073, 46]) = lit ''5990''
   \<and> price_conversion (lit ''1234.56 USD'') = lit ''1234''
   \<and> price_conversion (lit ''10'000.50 '' @ [1088, 1091, 1073, 46]) = lit ''10000''"
  by (simp add: price_conversion_eq lit_def is_digit_def)

text \<open>
  Claim C5, as stated, fails: for a token with no ASCII digit before its first \<open>.\<close>,
  such as \<open>"abc"\<close>, \<open>price_conversion\<close> raises nothing and returns the empty string.
\<close>

theorem price_conversion_no_digit_counterexample:
  "\<not> list_ex is_digit (hd (split 46 (lit ''abc''))) \<and> price_conversion (lit ''abc'') = []"
  by (simp add: price_conversion_eq lit_def is_digit_def)

lemma py_int_empty: "py_int [] = Inl ValueError"
  by (simp add: py_int_def strip_def digits_value_def)

text \<open>
  Claim C5, amended. For every price token in which no ASCII digit occurs before the
  first \<open>.\<close>, \<open>price_conversion\<close> raises nothing and returns the empty string. An
  error appears only in \<open>create_prices\<close> of \<open>market.py\<close>, where \<open>int\<close> of that empty
  string raises \<open>ValueError\<close> for a feed record with a known code.
\<close>

theorem price_conversion_no_digit_empty:
  "\<not> list_ex is_digit (takeWhile (\<lambda>c. c \<noteq> 46) p) \<Longrightarrow>
     price_conversion p = []
     \<and> (w_price w = p \<and> w_code w \<in> set offer_ids
          \<longrightarrow> market_create_prices (w # ws) offer_ids = Inl ValueError)"
  by (simp add: price_conversion_eq list_ex_iff filter_empty_conv py_int_empty)

theorem price_conversion_no_digit_empty_witness:
  "\<not> list_ex is_digit (takeWhile (\<lambda>c. c \<noteq> 46) (lit ''USD.12''))
   \<and> price_conversion (lit ''USD.12'') = []
   \<and> market_create_prices
         [\<lparr>w_code = lit ''A'', w_count = lit ''5'', w_price = lit ''USD.12''\<rparr>] [lit ''A'']
       = Inl ValueError"
proof -
  let ?w = "\<lparr>w_code = lit ''A'', w_count = lit ''5'', w_price = lit ''USD.12''\<rparr>"
  have h: "\<not> list_ex is_digit (takeWhile (\<lambda>c. c \<noteq> 46) (lit ''USD.12''))"
    by (simp add: lit_def is_digit_def)
  have k: "w_price ?w = lit ''USD.12'' \<and> w_code ?w \<in> set [lit ''A'']" by simp
  from price_conversion_no_digit_empty [OF h, of ?w "[lit ''A'']" "[]"] k h
  show ?thesis by blast
qed


section \<open>Properties of divide\<close>

lemma range_len_pos:
  assumes "0 < n"
  shows "range_len 0 (int L) n = (L + nat n - 1) div nat n"
proof (cases "L = 0")
  case True
  with assms show ?thesis by (simp add: range_len_def)
next
  case False
  define m where "m = nat n"
  have m: "n = int m" "0 < m" using assms by (simp_all add: m_def)
  obtain l where l: "L = Suc l" using False by (cases L) auto
  have "(int L - 1) div n = int (l div m)" using m l by (simp add: zdiv_int)
  then have "range_len 0 (int L) n = l div m + 1"
    using assms False by (simp add: range_len_def nat_add_distrib)
  moreover have "(L + m - 1) div m = l div m + 1"
    using l m by (simp add: div_add_self2)
  ultimately show ?thesis using m by simp
qed

lemma slice_step:
  assumes "0 < n"
  shows "slice lst (int k * n) (int k * n + n) = take (nat n) (drop (k * nat n) lst)"
proof -
  define m where "m = nat n"
  have m: "n = int m" "0 < m" using assms by (simp_all add: m_def)
  have "int k * n = int (k * m)" using m by simp
  then have lo: "clamp_index (length lst) (int k * n) = min (k * m) (length lst)"
    unfolding clamp_index_def by (simp del: of_nat_add of_nat_mult)
  have "int k * n + n = int (k * m + m)" using m by simp
  then have hi: "clamp_index (length lst) (int k * n + n) = min (k * m + m) (length lst)"
    unfolding clamp_index_def by (simp del: of_nat_add of_nat_mult)
  show ?thesis
    unfolding slice_def Let_def lo hi using m
    by (cases "k * m \<le> length lst") (auto simp: min_def)
qed

lemma divide_py_pos:
  assumes "0 < n"
  shows "divide_py lst n =
    Inr (map (\<lambda>k. take (nat n) (drop (k * nat n) lst)) [0 ..< (length lst + nat n - 1) div nat n])"
  using assms by (simp add: divide_py_def range_py_def range_len_pos slice_step o_def)

lemma concat_chunks: "concat (map (\<lambda>k. take m (drop (k * m) xs)) [0 ..< j]) = take (j * m) xs"
proof (induction j)
  case 0
  show ?case by simp
next
  case (Suc j)
  have "take (j * m + m) xs = take (j * m) xs @ take m (drop (j * m) xs)"
    by (rule take_add)
  with Suc show ?case by (simp add: add.commute)
qed



lemma chunk_count:
  assumes "0 < (m::nat)"
  shows "(L + m - 1) div m = L div m + (if L mod m = 0 then 0 else 1)"
proof -
  define q r where "q = L div m" and "r = L mod m"
  have L: "L = r + q * m" and r: "r < m"
    using assms by (simp_all add: q_def r_def)
  show ?thesis
  proof (cases "r = 0")
    case True
    have "(m - 1 + q * m) div m = q + (m - 1) div m"
      by (rule div_mult_self1) (use assms in simp)
    moreover have "(m - 1) div m = 0" using assms by simp
    moreover have "L + m - 1 = m - 1 + q * m" using L True assms by simp
    ultimately have "(L + m - 1) div m = q" by simp
    then show ?thesis using True unfolding q_def r_def by simp
  next
    case False
    have "(r - 1 + m + q * m) div m = q + (r - 1 + m) div m"
      by (rule div_mult_self1) (use assms in simp)
    moreover have "(r - 1 + m) div m = (r - 1) div m + 1"
      by (rule div_add_self2) (use assms in simp)
    moreover have "(r - 1) div m = 0" using r by simp
    moreover have "L + m - 1 = r - 1 + m + q * m" using L False by simp
    ultimately have "(L + m - 1) div m = q + 1" by simp
    then show ?thesis using False unfolding q_def r_def by simp
  qed
qed

lemma chunk_cover:
  assumes "0 < (m::nat)"
  shows "L \<le> (L + m - 1) div m * m"
proof -
  have r: "L mod m \<le> (if L mod m = 0 then 0 else 1) * m"
    using assms by (simp add: less_imp_le)
  have "L = L div m * m + L mod m" by simp
  also have "\<dots> \<le> L div m * m + (if L mod m = 0 then 0 else 1) * m"
    using r by (rule add_left_mono)
  also have "\<dots> = (L + m - 1) div m * m"
    unfolding chunk_count [OF assms] by (simp add: add_mult_distrib)
  finally show ?thesis .
qed


lemma last_chunk_full:
  assumes "0 < (m::nat)" "L mod m = 0" "0 < L div m"
  shows "L - (L div m - 1) * m = m"
proof -
  obtain q where q: "L div m = Suc q" using assms(3) by (cases "L div m") auto
  have "L div m * m + L mod m = L" by (rule div_mult_mod_eq)
  then have "L = Suc q * m" unfolding q assms(2) by simp
  then show ?thesis unfolding q by simp
qed

lemma divide_example: "divide_py [1, 2, 3, 4, 5, 6, 7 :: int] 3 = Inr [[1, 2, 3], [4, 5, 6], [7]]"
  by code_simp

text \<open>
  Claim C6. For a positive \<open>n\<close>, \<open>divide(lst, n)\<close> yields finitely many slices whose
  concatenation is \<open>lst\<close>. The slice number \<open>k\<close> is the \<open>n\<close> elements from position
  \<open>k * n\<close> on, so the slices are contiguous and in order; every slice but the last has
  length \<open>n\<close>, the last has length \<open>len(lst) mod n\<close>, or \<open>n\<close> when \<open>n\<close> divides the
  length; and the empty list yields no slice.
\<close>

theorem divide_partition:
  assumes "0 < n"
  shows "\<exists>bs. divide_py lst n = Inr bs \<and> concat bs = lst
           \<and> length bs = (length lst + nat n - 1) div nat n
           \<and> (\<forall>k < length bs. bs ! k = take (nat n) (drop (k * nat n) lst))
           \<and> (\<forall>k. Suc k < length bs \<longrightarrow> length (bs ! k) = nat n)
           \<and> (bs \<noteq> [] \<longrightarrow>
                length (last bs) =
                  (if length lst mod nat n = 0 then nat n else length lst mod nat n))
           \<and> (lst = [] \<longrightarrow> bs = [])"
proof -
  define m where "m = nat n"
  define L where "L = length lst"
  define j where "j = (L + m - 1) div m"
  define bs where "bs = map (\<lambda>k. take m (drop (k * m) lst)) [0 ..< j]"
  have m: "0 < m" using assms by (simp add: m_def)
  have j: "j = L div m + (if L mod m = 0 then 0 else 1)"
    unfolding j_def by (rule chunk_count [OF m])
  have Lqr: "L div m * m + L mod m = L" by simp
  have 1: "divide_py lst n = Inr bs"
    unfolding bs_def j_def L_def m_def by (rule divide_py_pos [OF assms])
  have "L \<le> j * m" unfolding j_def by (rule chunk_cover [OF m])
  then have 2: "concat bs = lst"
    unfolding bs_def concat_chunks by (simp add: L_def)
  have 3: "length bs = j" by (simp add: bs_def)
  have 4: "bs ! k = take m (drop (k * m) lst)" if "k < length bs" for k
    using that by (simp add: bs_def)
  have len: "length (bs ! k) = min m (L - k * m)" if "k < length bs" for k
    using 4 [OF that] by (simp add: L_def min_def)
  have 5: "length (bs ! k) = m" if "Suc k < length bs" for k
  proof -
    have "Suc k \<le> L div m" using that 3 j by (simp split: if_splits)
    then have "Suc k * m \<le> L div m * m" by (rule mult_le_mono1)
    also have "\<dots> \<le> L" by simp
    finally have "m \<le> L - k * m" by simp
    moreover have "k < length bs" using that by simp
    ultimately show ?thesis by (simp add: len)
  qed
  have 6: "length (last bs) = (if L mod m = 0 then m else L mod m)" if "bs \<noteq> []"
  proof -
    from that have pos: "0 < j" using 3 by (cases bs) auto
    have "last bs = bs ! (j - 1)" using that 3 by (simp add: last_conv_nth)
    then have l: "length (last bs) = min m (L - (j - 1) * m)"
      using len [of "j - 1"] pos 3 by simp
    show ?thesis
    proof (cases "L mod m = 0")
      case True
      then have "j = L div m" using j by simp
      with pos have "L - (j - 1) * m = m"
        using last_chunk_full [OF m True] by simp
      with l True show ?thesis by simp
    next
      case False
      then have "j - 1 = L div m" using j by simp
      then have "L - (j - 1) * m = L mod m"
        by (simp only: minus_div_mult_eq_mod)
      moreover have "L mod m < m" using m by simp
      ultimately show ?thesis using l False by simp
    qed
  qed
  have 7: "bs = []" if "lst = []"
    using that m by (simp add: bs_def j_def L_def)
  show ?thesis
  proof (intro exI conjI allI impI)
    show "divide_py lst n = Inr bs" by (rule 1)
    show "concat bs = lst" by (rule 2)
    show "length bs = (length lst + nat n - 1) div nat n"
      using 3 by (simp only: j_def L_def m_def)
    show "bs ! k = take (nat n) (drop (k * nat n) lst)" if "k < length bs" for k
      using 4 [OF that] by (simp only: m_def)
    show "length (bs ! k) = nat n" if "Suc k < length bs" for k
      using 5 [OF that] by (simp only: m_def)
    show "length (last bs) =
        (if length lst mod nat n = 0 then nat n else length lst mod nat n)" if "bs \<noteq> []"
      using 6 [OF that] by (simp only: m_def L_def)
    show "bs = []" if "lst = []" by (rule 7 [OF that])
  qed
qed

theorem divide_partition_witness:
  "(0::int) < 3 \<and>
   (\<exists>bs. divide_py [1, 2, 3, 4, 5, 6, 7 :: int] 3 = Inr bs \<and> concat bs = [1, 2, 3, 4, 5, 6, 7]
      \<and> length bs = 3 \<and> length (bs ! 0) = 3 \<and> length (bs ! 1) = 3 \<and> length (last bs) = 1)"
proof -
  have h: "(0::int) < 3" by simp
  from divide_partition [OF h, of "[1, 2, 3, 4, 5, 6, 7 :: int]"]
  obtain bs where 1: "divide_py [1, 2, 3, 4, 5, 6, 7 :: int] 3 = Inr bs"
      and 2: "concat bs = [1, 2, 3, 4, 5, 6, 7 :: int]" and 3: "length bs = 3"
      and 4: "\<And>k. Suc k < length bs \<Longrightarrow> length (bs ! k) = 3"
      and 5: "bs \<noteq> [] \<Longrightarrow> length (last bs) = 1"
    by (elim exE conjE) simp
  from 3 have ne: "bs \<noteq> []" by auto
  have "length (bs ! 0) = 3" "length (bs ! 1) = 3" using 4 [of 0] 4 [of 1] 3 by simp_all
  with 1 2 3 5 [OF ne] h show ?thesis by blast
qed

text \<open>
  Claim C7, as stated, fails for a negative \<open>n\<close>: \<open>range(0, len(lst), n)\<close> is then
  empty, so \<open>divide\<close> yields the empty sequence and raises nothing.
\<close>

theorem divide_negative_counterexample:
  "divide_py [1, 2, 3 :: int] (- 1) = Inr []"
  by (simp add: divide_py_def range_py_def range_len_def)

text \<open>
  Claim C7, amended. For \<open>n = 0\<close> the batcher fails with \<open>ValueError\<close> when it is
  iterated (raised by \<open>range\<close>); for every negative \<open>n\<close> it yields the empty sequence
  and no error.
\<close>

theorem divide_nonpositive:
  "n \<le> 0 \<Longrightarrow> divide_py lst n = (if n = 0 then Inl ValueError else Inr [])"
  by (simp add: divide_py_def range_py_def range_len_def)

theorem divide_nonpositive_witness:
  "(0::int) \<le> 0 \<and> divide_py [1, 2, 3 :: int] 0 = Inl ValueError
   \<and> (- 2 :: int) \<le> 0 \<and> divide_py [1, 2, 3 :: int] (- 2) = Inr []"
  using divide_nonpositive [of 0 "[1, 2, 3 :: int]"] divide_nonpositive [of "- 2" "[1, 2, 3 :: int]"]
  by simp


section \<open>Properties of the quantity branch\<close>

lemma space_not_digit: "list_all (\<lambda>s. digit_value s = None) space_chars"
  by (simp add: space_chars_def digit_value_def decimal_zeros_def)

lemma sign_not_digit: "digit_value 95 = None" "digit_value 43 = None" "digit_value 45 = None"
  by (simp_all add: digit_value_def decimal_zeros_def)

lemma sign_not_space: "\<not> is_space 43" "\<not> is_space 45" "\<not> is_space 95"
  by (simp_all add: is_space_def space_chars_def)

lemma digit_value_ascii: "48 \<le> c \<Longrightarrow> c \<le> 57 \<Longrightarrow> digit_value c = Some (c - 48)"
  by (simp add: digit_value_def decimal_zeros_def)

lemma digit_run_group:
  "list_all (\<lambda>c. digit_value c \<noteq> None) g \<Longrightarrow>
     digit_run acc n (g @ rest) = digit_run (foldl step acc g) (n + length g) rest"
  by (induction g arbitrary: acc n) auto

lemma digit_run_groups:
  "list_all digit_group gs \<Longrightarrow>
     digit_run acc n (concat (map ((#) 95) gs))
       = Some (foldl step acc (concat gs), n + length (concat gs))"
proof (induction gs arbitrary: acc n)
  case Nil
  show ?case by simp
next
  case (Cons g gs)
  from Cons.prems have dg: "digit_group g" and gs: "list_all digit_group gs" by simp_all
  then obtain e es where g: "g = e # es" by (cases g) (simp_all add: digit_group_def)
  from dg have e: "digit_value e \<noteq> None"
    and es: "list_all (\<lambda>c. digit_value c \<noteq> None) es"
    by (simp_all add: digit_group_def g)
  from e obtain d where d: "digit_value e = Some d" by auto
  have "digit_run acc n (concat (map ((#) 95) (g # gs)))
      = digit_run (10 * acc + d) (Suc n) (es @ concat (map ((#) 95) gs))"
    by (simp add: g d sign_not_digit)
  also have "\<dots> = digit_run (foldl step (10 * acc + d) es) (Suc n + length es)
      (concat (map ((#) 95) gs))"
    by (rule digit_run_group [OF es])
  also have "\<dots> = Some (foldl step (foldl step (10 * acc + d) es) (concat gs),
      Suc n + length es + length (concat gs))"
    by (rule Cons.IH [OF gs])
  finally show ?case by (simp add: g d)
qed

lemma join_Cons: "join [s] (g # gs) = g @ concat (map ((#) s) gs)"
  by (induction gs arbitrary: g) simp_all

lemma digits_value_join:
  assumes "gs \<noteq> []" "list_all digit_group gs"
  shows "digits_value (join [95] gs) = Some (decimal (concat gs), length (concat gs))"
proof -
  from assms obtain h hs where gh: "gs = h # hs" by (cases gs) simp_all
  with assms have dg: "digit_group h" and hs: "list_all digit_group hs" by simp_all
  then obtain e es where h: "h = e # es" by (cases h) (simp_all add: digit_group_def)
  from dg have e: "digit_value e \<noteq> None"
    and es: "list_all (\<lambda>c. digit_value c \<noteq> None) es"
    by (simp_all add: digit_group_def h)
  have gs: "gs = (e # es) # hs" by (simp add: gh h)
  from e obtain d where d: "digit_value e = Some d" by auto
  have "digits_value (join [95] gs) = digit_run d 1 (es @ concat (map ((#) 95) hs))"
    by (simp add: gs join_Cons digits_value_def d)
  also have "\<dots> = digit_run (foldl step d es) (1 + length es) (concat (map ((#) 95) hs))"
    by (rule digit_run_group [OF es])
  also have "\<dots> = Some (foldl step (foldl step d es) (concat hs), 1 + length es + length (concat hs))"
    by (rule digit_run_groups [OF hs])
  finally show ?thesis by (simp add: gs decimal_def d)
qed

lemma digit_run_Some:
  "digit_run acc n cs = Some (v, m) \<Longrightarrow>
     \<exists>g gs. cs = g @ concat (map ((#) 95) gs)
        \<and> list_all (\<lambda>c. digit_value c \<noteq> None) g \<and> list_all digit_group gs
        \<and> v = foldl step acc (g @ concat gs) \<and> m = n + length (g @ concat gs)"
proof (induction acc n cs rule: digit_run.induct)
  case (1 acc n)
  then have "v = acc" "m = n" by simp_all
  then show ?case by - (rule exI [of _ "[]"], rule exI [of _ "[]"], simp)
next
  case (2 acc n c cs)
  show ?case
  proof (cases "digit_value c")
    case (Some d)
    with "2.prems" have "digit_run (10 * acc + d) (Suc n) cs = Some (v, m)" by simp
    from "2.IH"(2) [OF Some this] obtain g gs where
      "cs = g @ concat (map ((#) 95) gs)" "list_all (\<lambda>c. digit_value c \<noteq> None) g"
      "list_all digit_group gs" "v = foldl step (10 * acc + d) (g @ concat gs)"
      "m = Suc n + length (g @ concat gs)" by blast
    then show ?thesis using Some
      by - (rule exI [of _ "c # g"], rule exI [of _ gs], simp)
  next
    case None
    with "2.prems" obtain e es d where c: "c = 95" and cs: "cs = e # es"
      and d: "digit_value e = Some d"
      and r: "digit_run (10 * acc + d) (Suc n) es = Some (v, m)"
      by (auto split: if_splits list.splits option.splits)
    from "2.IH"(1) [OF None c cs d r] obtain g gs where
      "es = g @ concat (map ((#) 95) gs)" "list_all (\<lambda>c. digit_value c \<noteq> None) g"
      "list_all digit_group gs" "v = foldl step (10 * acc + d) (g @ concat gs)"
      "m = Suc n + length (g @ concat gs)" by blast
    moreover from this d have "digit_group (e # g)" by (simp add: digit_group_def)
    ultimately show ?thesis using c cs d
      by - (rule exI [of _ "[]"], rule exI [of _ "(e # g) # gs"], simp)
  qed
qed

lemma digits_value_Some:
  assumes "digits_value s = Some (v, m)"
  shows "\<exists>gs. gs \<noteq> [] \<and> list_all digit_group gs \<and> s = join [95] gs
           \<and> v = decimal (concat gs) \<and> m = length (concat gs)"
proof -
  from assms obtain c cs d where s: "s = c # cs" and d: "digit_value c = Some d"
    and r: "digit_run d 1 cs = Some (v, m)"
    by (auto simp: digits_value_def split: list.splits option.splits)
  from digit_run_Some [OF r] obtain g gs where
    "cs = g @ concat (map ((#) 95) gs)" "list_all (\<lambda>c. digit_value c \<noteq> None) g"
    "list_all digit_group gs" "v = foldl step d (g @ concat gs)"
    "m = 1 + length (g @ concat gs)" by blast
  moreover from this d have "digit_group (c # g)" by (simp add: digit_group_def)
  ultimately show ?thesis using s d
    by - (rule exI [of _ "(c # g) # gs"], simp add: join_Cons decimal_def)
qed

lemma digit_not_space: "digit_value c \<noteq> None \<Longrightarrow> \<not> is_space c"
  using space_not_digit by (auto simp: is_space_def list_all_iff)

lemma strip_parts:
  "\<exists>l r. s = l @ strip s @ r \<and> list_all is_space l \<and> list_all is_space r"
proof -
  define l where "l = takeWhile is_space s"
  define x where "x = dropWhile is_space s"
  define r where "r = rev (takeWhile is_space (rev x))"
  have s: "s = l @ x" by (simp add: l_def x_def)
  have "x = rev (rev x)" by simp
  also have "\<dots> = rev (takeWhile is_space (rev x) @ dropWhile is_space (rev x))"
    by (simp only: takeWhile_dropWhile_id)
  also have "\<dots> = rev (dropWhile is_space (rev x)) @ rev (takeWhile is_space (rev x))"
    by (rule rev_append)
  finally have x: "x = strip s @ r" by (simp only: strip_def x_def r_def)
  have "list_all is_space l" unfolding l_def list_all_iff by (auto dest: set_takeWhileD)
  moreover have "list_all is_space r" unfolding r_def list_all_iff by (auto dest: set_takeWhileD)
  ultimately show ?thesis using s x by auto
qed

lemma dropWhile_all: "list_all P l \<Longrightarrow> dropWhile P (l @ m) = dropWhile P m"
  by (induction l) simp_all

lemma dropWhile_hd: "m \<noteq> [] \<Longrightarrow> \<not> P (hd m) \<Longrightarrow> dropWhile P m = m"
  by (cases m) simp_all

lemma strip_core:
  assumes "list_all is_space l" "list_all is_space r"
    and "m \<noteq> []" "\<not> is_space (hd m)" "\<not> is_space (last m)"
  shows "strip (l @ m @ r) = m"
proof -
  have 1: "dropWhile is_space (l @ m @ r) = m @ r"
    using assms by (simp add: dropWhile_all dropWhile_hd)
  have "dropWhile is_space (rev r @ rev m) = dropWhile is_space (rev m)"
    using assms(2) by (intro dropWhile_all) (simp add: list_all_iff)
  also have "\<dots> = rev m"
    using assms(3,5) by (intro dropWhile_hd) (simp_all add: hd_rev)
  finally show ?thesis by (simp add: strip_def 1)
qed

lemma last_groups:
  "digit_group g \<Longrightarrow> list_all digit_group gs \<Longrightarrow>
     digit_value (last (g @ concat (map ((#) 95) gs))) \<noteq> None"
proof (induction gs arbitrary: g)
  case Nil
  then show ?case by (cases g rule: rev_cases) (simp_all add: digit_group_def)
next
  case (Cons h gs)
  then have h: "digit_group h" and gs: "list_all digit_group gs" by simp_all
  then have "h \<noteq> []" by (simp add: digit_group_def)
  then have "last (g @ concat (map ((#) 95) (h # gs))) = last (h @ concat (map ((#) 95) gs))"
    by simp
  with Cons.IH [OF h gs] show ?case by simp
qed

lemma join_digits_ends:
  assumes "gs \<noteq> []" "list_all digit_group gs"
  shows "join [95] gs \<noteq> [] \<and> digit_value (hd (join [95] gs)) \<noteq> None
         \<and> digit_value (last (join [95] gs)) \<noteq> None"
proof -
  from assms obtain h hs where gh: "gs = h # hs" by (cases gs) simp_all
  with assms have dg: "digit_group h" and hs: "list_all digit_group hs" by simp_all
  then obtain e es where h: "h = e # es" by (cases h) (simp_all add: digit_group_def)
  from dg have e: "digit_value e \<noteq> None" by (simp add: digit_group_def h)
  from last_groups [OF dg hs] e show ?thesis by (simp add: gh join_Cons h)
qed

lemma py_int_literal:
  assumes "int_literal t v"
  shows "py_int t = Inr v"
proof -
  from assms obtain l sgn gs r where t: "t = l @ sgn @ join [95] gs @ r"
    and l: "list_all is_space l" and r: "list_all is_space r"
    and sgn: "sgn = [] \<or> sgn = [43] \<or> sgn = [45]"
    and gs: "gs \<noteq> []" "list_all digit_group gs"
    and len: "length (concat gs) \<le> max_str_digits"
    and v: "v = (if sgn = [45] then - int (decimal (concat gs)) else int (decimal (concat gs)))"
    unfolding int_literal_def by blast
  define ds where "ds = join [95] gs"
  from join_digits_ends [OF gs] have ds: "ds \<noteq> []" "digit_value (hd ds) \<noteq> None"
    "digit_value (last ds) \<noteq> None" by (simp_all add: ds_def)
  have dv: "digits_value ds = Some (decimal (concat gs), length (concat gs))"
    unfolding ds_def by (rule digits_value_join [OF gs])
  have hd_ds: "hd ds \<noteq> 45" "hd ds \<noteq> 43" using ds(2) sign_not_digit by auto
  have ns: "\<not> is_space (hd (sgn @ ds))" "\<not> is_space (last (sgn @ ds))" "sgn @ ds \<noteq> []"
    using sgn ds by (auto simp: digit_not_space sign_not_space)
  have "t = l @ (sgn @ ds) @ r" by (simp add: t ds_def)
  then have s: "strip t = sgn @ ds" using strip_core [OF l r ns(3) ns(1) ns(2)] by simp
  from sgn show ?thesis
  proof (elim disjE)
    assume "sgn = []"
    then show ?thesis using s dv hd_ds ds(1) len v by (simp add: py_int_def Let_def)
  next
    assume "sgn = [43]"
    then show ?thesis using s dv len v by (simp add: py_int_def Let_def)
  next
    assume "sgn = [45]"
    then show ?thesis using s dv len v by (simp add: py_int_def Let_def)
  qed
qed

lemma py_int_Inr:
  assumes "py_int t = Inr v"
  shows "int_literal t v"
proof -
  define m where "m = strip t"
  define neg where "neg = (m \<noteq> [] \<and> hd m = 45)"
  define body where "body = (if m \<noteq> [] \<and> (hd m = 45 \<or> hd m = 43) then tl m else m)"
  define sgn where "sgn = (if m \<noteq> [] \<and> (hd m = 45 \<or> hd m = 43) then [hd m] else [])"
  from strip_parts [of t] obtain l r where t: "t = l @ m @ r"
    and l: "list_all is_space l" and r: "list_all is_space r"
    unfolding m_def by blast
  have m: "m = sgn @ body" by (cases m) (auto simp: sgn_def body_def)
  from assms obtain u n where dv: "digits_value body = Some (u, n)"
    and n: "n \<le> max_str_digits" and v: "v = (if neg then - int u else int u)"
    unfolding py_int_def Let_def m_def [symmetric] body_def [symmetric] neg_def [symmetric]
    by (auto split: option.splits if_splits)
  from digits_value_Some [OF dv] obtain gs where gs: "gs \<noteq> []" "list_all digit_group gs"
    and b: "body = join [95] gs" and u: "u = decimal (concat gs)" and n': "n = length (concat gs)"
    by blast
  have s: "sgn = [] \<or> sgn = [43] \<or> sgn = [45]" by (auto simp: sgn_def)
  have "neg \<longleftrightarrow> sgn = [45]" by (auto simp: neg_def sgn_def)
  with v u have v': "v = (if sgn = [45] then - int (decimal (concat gs)) else int (decimal (concat gs)))"
    by simp
  have "t = l @ sgn @ join [95] gs @ r" by (simp add: t m b)
  with l r s gs n n' v' show ?thesis unfolding int_literal_def by blast
qed

lemma py_int_result: "py_int t = Inl ValueError \<or> (\<exists>v. py_int t = Inr v)"
proof (cases "digits_value (if strip t \<noteq> [] \<and> (hd (strip t) = 45 \<or> hd (strip t) = 43) then tl (strip t) else strip t)")
  case None
  then show ?thesis by (simp add: py_int_def Let_def)
next
  case (Some p)
  obtain u n where "p = (u, n)" by (cases p)
  with Some show ?thesis by (simp add: py_int_def Let_def)
qed


lemma py_int_iff: "py_int t = Inr v \<longleftrightarrow> int_literal t v"
  by (rule iffI [OF py_int_Inr py_int_literal])

lemma py_int_error_iff: "py_int t = Inl ValueError \<longleftrightarrow> (\<nexists>v. int_literal t v)"
proof
  assume e: "py_int t = Inl ValueError"
  show "\<nexists>v. int_literal t v"
  proof
    assume "\<exists>v. int_literal t v"
    then obtain v where "int_literal t v" ..
    then have "py_int t = Inr v" by (rule py_int_literal)
    with e show False by simp
  qed
next
  assume n: "\<nexists>v. int_literal t v"
  from py_int_result [of t] show "py_int t = Inl ValueError"
  proof
    assume "\<exists>v. py_int t = Inr v"
    then obtain v where "py_int t = Inr v" ..
    then have "int_literal t v" by (rule py_int_Inr)
    with n show ?thesis by blast
  qed
qed

lemma digit_value_is_digit: "is_digit c \<Longrightarrow> digit_value c = Some (c - 48)"
  by (simp add: is_digit_def digit_value_ascii)

lemma py_int_digits:
  assumes "t \<noteq> []" "list_all (\<lambda>c. digit_value c \<noteq> None) t"
  shows "py_int t = (if max_str_digits < length t then Inl ValueError else Inr (int (decimal t)))"
proof -
  have g: "[t] \<noteq> []" "list_all digit_group [t]" using assms by (simp_all add: digit_group_def)
  from digits_value_join [OF g] have dv: "digits_value t = Some (decimal t, length t)" by simp
  from join_digits_ends [OF g] have e: "digit_value (hd t) \<noteq> None" "digit_value (last t) \<noteq> None"
    by simp_all
  then have ns: "\<not> is_space (hd t)" "\<not> is_space (last t)" by (simp_all add: digit_not_space)
  have "strip ([] @ t @ []) = t" by (rule strip_core [OF _ _ assms(1) ns]) simp_all
  then have s: "strip t = t" by simp
  have "hd t \<noteq> 45" "hd t \<noteq> 43" using e(1) sign_not_digit by auto
  then show ?thesis by (simp add: py_int_def Let_def s dv)
qed

lemma decimal_zeros_run: "decimal (replicate n 48) = 0"
proof -
  have "foldl step 0 (replicate n 48) = 0"
    by (induction n) (simp_all add: digit_value_ascii)
  then show ?thesis by (simp add: decimal_def)
qed

lemmas int_eval = normalize_quantity_def lit_def py_int_def strip_def is_space_def space_chars_def
  digits_value_def digit_value_def decimal_zeros_def max_str_digits_def

lemma normalize_quantity_5: "normalize_quantity (lit ''5'') = Inr 5"
  by (simp add: int_eval)

lemma digit_limit_examples: "normalize_quantity (replicate 4300 48) = Inr 0"
  "normalize_quantity (replicate 4301 48) = Inl ValueError"
proof -
  have d: "list_all (\<lambda>c. digit_value c \<noteq> None) (replicate n 48)" for n
    by (simp add: list_all_iff digit_value_ascii)
  have n: "replicate 4300 (48::nat) \<noteq> []" "replicate 4301 (48::nat) \<noteq> []" by simp_all
  have "replicate k (48::nat) \<noteq> s" if "length s < k" for k s
    using that by (metis length_replicate less_irrefl)
  then have ne: "replicate 4300 48 \<noteq> lit ''>10''" "replicate 4300 48 \<noteq> lit ''1''"
    "replicate 4301 48 \<noteq> lit ''>10''" "replicate 4301 48 \<noteq> lit ''1''"
    by (simp_all add: lit_def)
  show "normalize_quantity (replicate 4300 48) = Inr 0"
    using ne by (simp add: normalize_quantity_def py_int_digits [OF n(1) d] decimal_zeros_run max_str_digits_def)
  show "normalize_quantity (replicate 4301 48) = Inl ValueError"
    using ne by (simp add: normalize_quantity_def py_int_digits [OF n(2) d] max_str_digits_def)
qed

text \<open>
  Claim C3. The quantity branch returns 100 for the token \<open>">10"\<close> and 0 for the
  token \<open>"1"\<close>. Every other token goes to \<open>int\<close>, which returns \<open>v\<close> exactly
  when the token is a base-10 integer literal of value \<open>v\<close> and fails with
  \<open>ValueError\<close>, the only failure there is, exactly when the token is no such
  literal. A token of ASCII digits gives the number it denotes (\<open>"7"\<close> gives 7).
  The examples: surrounding whitespace, a sign and single underscores are accepted
  (\<open>" 1"\<close> is not the literal \<open>"1"\<close> and gives 1), digits of other scripts
  count, 4300 digits are accepted and 4301 are not, and the separator U+001C, letters,
  a decimal point, a double underscore and the empty token fail.
\<close>

theorem normalize_quantity_cases:
  "normalize_quantity (lit ''>10'') = Inr 100
   \<and> normalize_quantity (lit ''1'') = Inr 0
   \<and> normalize_quantity (lit ''7'') = Inr 7
   \<and> (t \<noteq> lit ''>10'' \<and> t \<noteq> lit ''1'' \<longrightarrow>
        normalize_quantity t = py_int t
        \<and> (normalize_quantity t = Inr v \<longleftrightarrow> int_literal t v)
        \<and> (normalize_quantity t = Inl ValueError \<longleftrightarrow> (\<nexists>u. int_literal t u)))
   \<and> (t \<noteq> [] \<and> list_all is_digit t \<and> length t \<le> 4300 \<and> t \<noteq> lit ''1''
        \<longrightarrow> normalize_quantity t = Inr (int (decimal t)))
   \<and> (normalize_quantity t = Inl ValueError \<or> (\<exists>n. normalize_quantity t = Inr n))
   \<and> normalize_quantity (lit '' 12 '') = Inr 12
   \<and> normalize_quantity (lit ''-5'') = Inr (- 5)
   \<and> normalize_quantity (lit ''+1_000'') = Inr 1000
   \<and> normalize_quantity (lit '' 1'') = Inr 1
   \<and> normalize_quantity [1635] = Inr 3
   \<and> normalize_quantity [160, 49, 50, 8195] = Inr 12
   \<and> normalize_quantity (replicate 4300 48) = Inr 0
   \<and> normalize_quantity (replicate 4301 48) = Inl ValueError
   \<and> normalize_quantity [28, 49, 50, 31] = Inl ValueError
   \<and> normalize_quantity (lit ''many'') = Inl ValueError
   \<and> normalize_quantity (lit ''2.5'') = Inl ValueError
   \<and> normalize_quantity (lit ''1__0'') = Inl ValueError
   \<and> normalize_quantity [] = Inl ValueError"
proof -
  have sentinels: "normalize_quantity (lit ''>10'') = Inr 100"
      "normalize_quantity (lit ''1'') = Inr 0"
    by (simp_all add: normalize_quantity_def lit_def)
  have seven: "normalize_quantity (lit ''7'') = Inr 7" by (simp add: int_eval)
  have other: "normalize_quantity t = py_int t
        \<and> (normalize_quantity t = Inr v \<longleftrightarrow> int_literal t v)
        \<and> (normalize_quantity t = Inl ValueError \<longleftrightarrow> (\<nexists>u. int_literal t u))"
    if "t \<noteq> lit ''>10'' \<and> t \<noteq> lit ''1''"
  proof -
    from that have e: "normalize_quantity t = py_int t" by (simp add: normalize_quantity_def)
    show ?thesis unfolding e using py_int_iff [of t v] py_int_error_iff [of t] by simp
  qed
  have digits: "normalize_quantity t = Inr (int (decimal t))"
    if h: "t \<noteq> [] \<and> list_all is_digit t \<and> length t \<le> 4300 \<and> t \<noteq> lit ''1''"
  proof -
    from h have "hd t \<noteq> 62" by (cases t) (auto simp: is_digit_def)
    then have 1: "t \<noteq> lit ''>10''" by (auto simp: lit_def)
    from h have 2: "list_all (\<lambda>c. digit_value c \<noteq> None) t"
      by (auto simp: list_all_iff digit_value_is_digit)
    from h have 3: "t \<noteq> []" and 4: "\<not> max_str_digits < length t"
      by (simp_all add: max_str_digits_def)
    from h 1 have "normalize_quantity t = py_int t" by (simp add: normalize_quantity_def)
    then show ?thesis by (simp add: py_int_digits [OF 3 2] 4)
  qed
  have only: "normalize_quantity t = Inl ValueError \<or> (\<exists>n. normalize_quantity t = Inr n)"
    using py_int_result [of t] by (simp add: normalize_quantity_def)
  have ex: "normalize_quantity (lit '' 12 '') = Inr 12"
   "normalize_quantity (lit ''-5'') = Inr (- 5)"
   "normalize_quantity (lit ''+1_000'') = Inr 1000"
   "normalize_quantity (lit '' 1'') = Inr 1"
   "normalize_quantity [1635] = Inr 3"
   "normalize_quantity [160, 49, 50, 8195] = Inr 12"
   "normalize_quantity [28, 49, 50, 31] = Inl ValueError"
   "normalize_quantity (lit ''many'') = Inl ValueError"
   "normalize_quantity (lit ''2.5'') = Inl ValueError"
   "normalize_quantity (lit ''1__0'') = Inl ValueError"
   "normalize_quantity [] = Inl ValueError"
    by (simp_all add: int_eval)
  have long: "normalize_quantity (replicate 4300 48) = Inr 0"
    "normalize_quantity (replicate 4301 48) = Inl ValueError"
    by (rule digit_limit_examples)+
  show ?thesis
    by (intro conjI;
        (rule sentinels seven ex long only | (rule impI, rule other, assumption)
          | (rule impI, rule digits, assumption)))
qed

theorem normalize_quantity_cases_witness:
  "lit ''12'' \<noteq> lit ''>10'' \<and> lit ''12'' \<noteq> lit ''1'' \<and> lit ''12'' \<noteq> []
   \<and> list_all is_digit (lit ''12'') \<and> length (lit ''12'') \<le> 4300
   \<and> int_literal (lit ''12'') 12
   \<and> normalize_quantity (lit ''12'') = py_int (lit ''12'')
   \<and> normalize_quantity (lit ''12'') = Inr 12"
proof -
  have h: "lit ''12'' \<noteq> lit ''>10'' \<and> lit ''12'' \<noteq> lit ''1''"
    and g: "lit ''12'' \<noteq> [] \<and> list_all is_digit (lit ''12'') \<and> length (lit ''12'') \<le> 4300
        \<and> lit ''12'' \<noteq> lit ''1''"
    by (simp_all add: lit_def is_digit_def)
  have d: "decimal (lit ''12'') = 12" by (simp add: decimal_def lit_def digit_value_ascii)
  have "lit ''12'' = [] @ [] @ join [95] [lit ''12''] @ []" by simp
  moreover have "list_all digit_group [lit ''12'']"
    by (simp add: digit_group_def lit_def digit_value_ascii)
  moreover have "length (concat [lit ''12'']) \<le> max_str_digits"
    by (simp add: lit_def max_str_digits_def)
  ultimately have i: "int_literal (lit ''12'') 12"
    unfolding int_literal_def
    by (intro exI [of _ "[]"] exI [of _ "[lit ''12'']"]) (simp add: d)
  note th = normalize_quantity_cases [of "lit ''12''" 12]
  from th h have 1: "normalize_quantity (lit ''12'') = py_int (lit ''12'')" by blast
  from th h have "normalize_quantity (lit ''12'') = Inr 12 \<longleftrightarrow> int_literal (lit ''12'') 12"
    by blast
  with i have 2: "normalize_quantity (lit ''12'') = Inr 12" by simp
  from h g i 1 2 show ?thesis by blast
qed


section \<open>Properties of create_stocks and create_prices\<close>

lemma count_list_remove1:
  "count_list (remove1 c xs) x = count_list xs x - (if x = c \<and> c \<in> set xs then 1 else 0)"
  by (induction xs) auto

lemma in_set_count_list: "c \<in> set xs \<longleftrightarrow> 0 < count_list xs c"
  by (induction xs) auto

lemma stocks_loop_matched:
  assumes "\<forall>c. count_list ids c = count_list K c - count_list (map w_code seen) c"
    and "list_all parses (matched_from seen ws K)"
  shows "stocks_loop ws acc ids =
           (Inr (acc @ map matched_stock (matched_from seen ws K)),
            fold remove1 (map w_code (matched_from seen ws K)) ids)"
  using assms
proof (induction ws arbitrary: seen acc ids)
  case Nil
  show ?case by simp
next
  case (Cons w ws)
  let ?c = "w_code w"
  have mem: "?c \<in> set ids \<longleftrightarrow> count_list (map w_code seen) ?c < count_list K ?c"
    using Cons.prems(1) by (simp add: in_set_count_list)
  show ?case
  proof (cases "?c \<in> set ids")
    case True
    then have m: "matched_from seen (w # ws) K = w # matched_from (seen @ [w]) ws K"
      using mem by simp
    have inv: "\<forall>c. count_list (remove1 ?c ids) c
                 = count_list K c - count_list (map w_code (seen @ [w])) c"
      using Cons.prems(1) True by (simp add: count_list_remove1)
    from Cons.prems(2) m have p: "parses w" and ps: "list_all parses (matched_from (seen @ [w]) ws K)"
      by simp_all
    from p obtain q where q: "normalize_quantity (w_count w) = Inr q"
      by (cases "normalize_quantity (w_count w)") (auto simp: parses_def)
    show ?thesis
      using True q m Cons.IH [OF inv ps] by (simp add: matched_stock_def)
  next
    case False
    then have m: "matched_from seen (w # ws) K = matched_from (seen @ [w]) ws K"
      using mem by simp
    have inv: "\<forall>c. count_list ids c = count_list K c - count_list (map w_code (seen @ [w])) c"
      using Cons.prems(1) False mem by (auto simp: in_set_count_list)
    from Cons.prems(2) m have ps: "list_all parses (matched_from (seen @ [w]) ws K)"
      by simp
    show ?thesis
      using False m Cons.IH [OF inv ps] by simp
  qed
qed

lemma stocks_loop_Inr_parses:
  assumes "\<forall>c. count_list ids c = count_list K c - count_list (map w_code seen) c"
    and "stocks_loop ws acc ids = (Inr st, rest)"
  shows "list_all parses (matched_from seen ws K)"
  using assms
proof (induction ws arbitrary: seen acc ids)
  case Nil
  show ?case by simp
next
  case (Cons w ws)
  let ?c = "w_code w"
  have mem: "?c \<in> set ids \<longleftrightarrow> count_list (map w_code seen) ?c < count_list K ?c"
    using Cons.prems(1) by (simp add: in_set_count_list)
  show ?case
  proof (cases "?c \<in> set ids")
    case True
    have inv: "\<forall>c. count_list (remove1 ?c ids) c
                 = count_list K c - count_list (map w_code (seen @ [w])) c"
      using Cons.prems(1) True by (simp add: count_list_remove1)
    from Cons.prems(2) True obtain q where q: "normalize_quantity (w_count w) = Inr q"
      and l: "stocks_loop ws (acc @ [\<lparr>offer_id = ?c, stock = q\<rparr>]) (remove1 ?c ids) = (Inr st, rest)"
      by (cases "normalize_quantity (w_count w)") auto
    from q have "parses w" by (simp add: parses_def)
    with Cons.IH [OF inv l] True mem show ?thesis by simp
  next
    case False
    have inv: "\<forall>c. count_list ids c = count_list K c - count_list (map w_code (seen @ [w])) c"
      using Cons.prems(1) False mem by (auto simp: in_set_count_list)
    from Cons.prems(2) False have l: "stocks_loop ws acc ids = (Inr st, rest)" by simp
    with Cons.IH [OF inv l] False mem show ?thesis by simp
  qed
qed

lemma create_stocks_Inr_iff:
  "create_stocks F K = (Inr stocks, rest) \<longleftrightarrow>
     list_all parses (matched F K)
     \<and> rest = fold remove1 (map w_code (matched F K)) K
     \<and> stocks = map matched_stock (matched F K) @ map zero_stock rest"
proof -
  have inv: "\<forall>c. count_list K c = count_list K c - count_list (map w_code []) c" by simp
  show ?thesis
  proof
    assume a: "create_stocks F K = (Inr stocks, rest)"
    then obtain st where l: "stocks_loop F [] K = (Inr st, rest)"
      by (auto simp: create_stocks_def split: prod.splits sum.splits)
    from stocks_loop_Inr_parses [OF inv l] have p: "list_all parses (matched F K)"
      by (simp add: matched_def)
    from stocks_loop_matched [OF inv, of F "[]"] p
    have "stocks_loop F [] K = (Inr (map matched_stock (matched F K)),
            fold remove1 (map w_code (matched F K)) K)"
      by (simp add: matched_def)
    with a p show "list_all parses (matched F K)
     \<and> rest = fold remove1 (map w_code (matched F K)) K
     \<and> stocks = map matched_stock (matched F K) @ map zero_stock rest"
      by (auto simp: create_stocks_def zero_stock_def)
  next
    assume a: "list_all parses (matched F K)
     \<and> rest = fold remove1 (map w_code (matched F K)) K
     \<and> stocks = map matched_stock (matched F K) @ map zero_stock rest"
    with stocks_loop_matched [OF inv, of F "[]"]
    show "create_stocks F K = (Inr stocks, rest)"
      by (simp add: matched_def create_stocks_def zero_stock_def)
  qed
qed

lemma subseq_matched_from: "subseq (matched_from seen ws K) ws"
  by (induction ws arbitrary: seen) auto

lemma subseq_remove1: "subseq (remove1 c xs) xs"
  by (induction xs) auto

lemma subseq_fold_remove1: "subseq (fold remove1 cs xs) xs"
proof (induction cs arbitrary: xs)
  case Nil
  show ?case by simp
next
  case (Cons c cs)
  have "subseq (fold remove1 cs (remove1 c xs)) (remove1 c xs)" by (rule Cons.IH)
  then show ?case using subseq_remove1 [of c xs] by (auto intro: subseq_order.trans)
qed

lemma mset_fold_remove1: "mset (fold remove1 cs xs) = mset xs - mset cs"
  by (induction cs arbitrary: xs) simp_all

lemma count_matched_from:
  "count_list (map w_code (matched_from seen ws K)) c =
     min (count_list (map w_code ws) c) (count_list K c - count_list (map w_code seen) c)"
  by (induction ws arbitrary: seen) (auto simp: min_def)

lemma mset_matched_le: "mset (map w_code (matched F K)) \<subseteq># mset K"
proof (rule mset_subset_eqI)
  fix a
  have "count (mset (map w_code (matched F K))) a = count_list (map w_code (matched F K)) a"
    by (rule count_mset)
  also have "\<dots> \<le> count_list K a"
    by (simp add: matched_def count_matched_from)
  also have "\<dots> = count (mset K) a" by (rule count_mset [symmetric])
  finally show "count (mset (map w_code (matched F K))) a \<le> count (mset K) a" .
qed




lemma offer_ids_of_stocks:
  "map offer_id (map matched_stock ms @ map zero_stock rest) = map w_code ms @ rest"
  by (simp add: matched_stock_def zero_stock_def o_def)

lemma create_stocks_mset:
  assumes "create_stocks F K = (Inr stocks, rest)"
  shows "mset (map offer_id stocks) = mset K"
proof -
  from assms have r: "rest = fold remove1 (map w_code (matched F K)) K"
    and s: "stocks = map matched_stock (matched F K) @ map zero_stock rest"
    by (simp_all add: create_stocks_Inr_iff)
  have "mset rest = mset K - mset (map w_code (matched F K))"
    unfolding r by (rule mset_fold_remove1)
  then have "mset (map w_code (matched F K)) + mset rest = mset K"
    using mset_matched_le [of F K] by (simp add: subset_mset.add_diff_inverse)
  moreover have "map offer_id stocks = map w_code (matched F K) @ rest"
    unfolding s by (rule offer_ids_of_stocks)
  ultimately show ?thesis by (simp del: mset_map)
qed

lemma create_prices_eq:
  "create_prices F K = map seller_price (filter (\<lambda>w. w_code w \<in> set K) F)"
  by (induction F) simp_all

lemma set_matched: "set (matched F K) \<subseteq> set F"
proof
  fix w assume "w \<in> set (matched F K)"
  with list_emb_set [OF subseq_matched_from [of "[]" F K]] show "w \<in> set F"
    by (auto simp: matched_def)
qed


lemma create_stocks_origin:
  assumes "create_stocks F K = (Inr stocks, rest)" and "s \<in> set stocks"
  shows "s = zero_stock (offer_id s) \<or> (\<exists>w \<in> set F. s = matched_stock w)"
proof -
  from assms(1) have st: "stocks = map matched_stock (matched F K) @ map zero_stock rest"
    by (simp add: create_stocks_Inr_iff)
  note set_matched [of F K]
  with assms(2) show ?thesis unfolding st by (auto simp: zero_stock_def)
qed

lemma create_stocks_example:
  "create_stocks
     [\<lparr>w_code = lit ''123-ABC'', w_count = lit ''5'', w_price = lit ''5'990.00''\<rparr>,
      \<lparr>w_code = lit ''456-DEF'', w_count = lit ''>10'', w_price = lit ''10'000.50''\<rparr>]
     [lit ''123-ABC'', lit ''456-DEF'', lit ''789-GHI'']
   = (Inr [\<lparr>offer_id = lit ''123-ABC'', stock = 5\<rparr>, \<lparr>offer_id = lit ''456-DEF'', stock = 100\<rparr>,
           \<lparr>offer_id = lit ''789-GHI'', stock = 0\<rparr>],
      [lit ''789-GHI''])"
  by (simp add: create_stocks_def int_eval)










lemma create_stocks_ids:
  assumes "create_stocks F K = (Inr stocks, rest)"
  shows "offer_id ` set stocks = set K"
proof -
  have "set (map offer_id stocks) = set K"
    using create_stocks_mset [OF assms] by (metis set_mset_mset)
  then show ?thesis by simp
qed

text \<open>
  Claim C8. The stock list is the records of the matched feed rows, in feed order,
  followed by the zero-fill records of the offers left over, in the order of the offer
  list. The price list is the price records of the feed rows whose code is a known offer,
  in feed order. A feed row whose code is no known offer gives no stock record and no
  price record; the feed with the one code \<open>999-ZZZ\<close> and the offer \<open>123-ABC\<close>
  give the empty price list.
\<close>

theorem reconcile_order:
  "(create_stocks F K = (Inr stocks, rest) \<longrightarrow>
      stocks = map matched_stock (matched F K) @ map zero_stock rest
      \<and> subseq (matched F K) F \<and> subseq rest K
      \<and> rest = fold remove1 (map w_code (matched F K)) K
      \<and> (\<forall>w \<in> set F. w_code w \<notin> set K \<longrightarrow> w_code w \<notin> offer_id ` set stocks))
   \<and> create_prices F K = map seller_price (filter (\<lambda>w. w_code w \<in> set K) F)
   \<and> (\<forall>w \<in> set F. w_code w \<notin> set K \<longrightarrow> w_code w \<notin> price_offer_id ` set (create_prices F K))
   \<and> create_prices [\<lparr>w_code = lit ''999-ZZZ'', w_count = c, w_price = lit ''100.00''\<rparr>]
        [lit ''123-ABC''] = []"
proof (intro conjI impI ballI)
  assume a: "create_stocks F K = (Inr stocks, rest)"
  then show "stocks = map matched_stock (matched F K) @ map zero_stock rest"
    and r: "rest = fold remove1 (map w_code (matched F K)) K"
    by (simp_all add: create_stocks_Inr_iff)
  show "subseq (matched F K) F" unfolding matched_def by (rule subseq_matched_from)
  show "subseq rest K" unfolding r by (rule subseq_fold_remove1)
next
  fix w :: watch
  assume "create_stocks F K = (Inr stocks, rest)" "w_code w \<notin> set K"
  then show "w_code w \<notin> offer_id ` set stocks" by (simp add: create_stocks_ids)
next
  show "create_prices F K = map seller_price (filter (\<lambda>w. w_code w \<in> set K) F)"
    by (rule create_prices_eq)
next
  fix w :: watch
  assume "w_code w \<notin> set K"
  then show "w_code w \<notin> price_offer_id ` set (create_prices F K)"
    by (auto simp: create_prices_eq seller_price_def)
next
  show "create_prices [\<lparr>w_code = lit ''999-ZZZ'', w_count = c, w_price = lit ''100.00''\<rparr>]
        [lit ''123-ABC''] = []"
    by (simp add: lit_def)
qed


theorem reconcile_order_witness:
  "create_stocks [\<lparr>w_code = lit ''A'', w_count = lit ''5'', w_price = lit ''1.00''\<rparr>,
                  \<lparr>w_code = lit ''Z'', w_count = lit ''3'', w_price = lit ''2.00''\<rparr>]
       [lit ''A'', lit ''B'']
     = (Inr [\<lparr>offer_id = lit ''A'', stock = 5\<rparr>, \<lparr>offer_id = lit ''B'', stock = 0\<rparr>], [lit ''B''])
   \<and> \<lparr>w_code = lit ''Z'', w_count = lit ''3'', w_price = lit ''2.00''\<rparr>
       \<in> set [\<lparr>w_code = lit ''A'', w_count = lit ''5'', w_price = lit ''1.00''\<rparr>,
                \<lparr>w_code = lit ''Z'', w_count = lit ''3'', w_price = lit ''2.00''\<rparr>]
   \<and> lit ''Z'' \<notin> set [lit ''A'', lit ''B'']
   \<and> lit ''Z'' \<notin> offer_id ` set [\<lparr>offer_id = lit ''A'', stock = 5\<rparr>, \<lparr>offer_id = lit ''B'', stock = 0\<rparr>]
   \<and> lit ''Z'' \<notin> price_offer_id `
         set (create_prices [\<lparr>w_code = lit ''A'', w_count = lit ''5'', w_price = lit ''1.00''\<rparr>,
                             \<lparr>w_code = lit ''Z'', w_count = lit ''3'', w_price = lit ''2.00''\<rparr>]
                [lit ''A'', lit ''B''])
   \<and> [\<lparr>offer_id = lit ''A'', stock = 5\<rparr>, \<lparr>offer_id = lit ''B'', stock = 0\<rparr>]
       = map matched_stock
           (matched [\<lparr>w_code = lit ''A'', w_count = lit ''5'', w_price = lit ''1.00''\<rparr>,
                     \<lparr>w_code = lit ''Z'', w_count = lit ''3'', w_price = lit ''2.00''\<rparr>]
              [lit ''A'', lit ''B''])
         @ map zero_stock [lit ''B'']"
proof -
  let ?a = "\<lparr>w_code = lit ''A'', w_count = lit ''5'', w_price = lit ''1.00''\<rparr>"
  let ?z = "\<lparr>w_code = lit ''Z'', w_count = lit ''3'', w_price = lit ''2.00''\<rparr>"
  let ?K = "[lit ''A'', lit ''B'']"
  let ?S = "[\<lparr>offer_id = lit ''A'', stock = 5\<rparr>, \<lparr>offer_id = lit ''B'', stock = 0\<rparr>]"
  have five: "normalize_quantity (lit ''5'') = Inr 5"
    by (rule normalize_quantity_5)
  have ne: "lit ''A'' \<noteq> lit ''B''" "lit ''Z'' \<noteq> lit ''A''" "lit ''Z'' \<noteq> lit ''B''"
    by (simp_all add: lit_def)
  have c: "create_stocks [?a, ?z] ?K = (Inr ?S, [lit ''B''])"
    by (simp add: create_stocks_def five ne)
  have z: "?z \<in> set [?a, ?z]" "lit ''Z'' \<notin> set ?K" using ne by simp_all
  have w: "w_code ?z = lit ''Z''" by simp
  have zK: "w_code ?z \<notin> set ?K" unfolding w by (rule z(2))
  note t = reconcile_order [of "[?a, ?z]" ?K ?S "[lit ''B'']"]
  from t c have 1: "?S = map matched_stock (matched [?a, ?z] ?K) @ map zero_stock [lit ''B'']"
    by blast
  from t c have "\<forall>w \<in> set [?a, ?z]. w_code w \<notin> set ?K \<longrightarrow> w_code w \<notin> offer_id ` set ?S"
    by blast
  from bspec [OF this z(1)] zK have 2: "w_code ?z \<notin> offer_id ` set ?S" by (rule mp)
  from t have "\<forall>w \<in> set [?a, ?z]. w_code w \<notin> set ?K
      \<longrightarrow> w_code w \<notin> price_offer_id ` set (create_prices [?a, ?z] ?K)"
    by blast
  from bspec [OF this z(1)] zK
  have 3: "w_code ?z \<notin> price_offer_id ` set (create_prices [?a, ?z] ?K)" by (rule mp)
  from c z 1 2 [unfolded w] 3 [unfolded w] show ?thesis by blast
qed


section \<open>Properties of the submission loop\<close>

lemma world_after_Cons: "world_after update (b # bs) w = world_after update bs (snd (update b w))"
  by (simp add: world_after_def)

lemma call_result_Suc:
  "call_result update (b # bs) w (Suc j) = call_result update bs (snd (update b w)) j"
  by (simp add: call_result_def world_after_Cons)

lemma for_each_logged_ok:
  "(\<forall>j < length bs. \<not> isl (call_result update bs w j)) \<Longrightarrow>
     for_each (logged update) bs (w, log) = (Inr (), (world_after update bs w, log @ bs))"
proof (induction bs arbitrary: w log)
  case Nil
  show ?case by (simp add: world_after_def)
next
  case (Cons b bs)
  from Cons.prems have "\<not> isl (call_result update (b # bs) w 0)" by blast
  then obtain r w' where u: "update b w = (Inr r, w')"
    by (cases "update b w"; cases "fst (update b w)") (auto simp: call_result_def world_after_def)
  have "\<forall>j < length bs. \<not> isl (call_result update bs w' j)"
  proof (intro allI impI)
    fix j assume "j < length bs"
    then have "\<not> isl (call_result update (b # bs) w (Suc j))" using Cons.prems by simp
    then show "\<not> isl (call_result update bs w' j)" by (simp add: call_result_Suc u)
  qed
  from Cons.IH [OF this, of "log @ [b]"] u show ?case
    by (simp add: logged_def world_after_Cons)
qed

lemma for_each_logged_fail:
  "k < length bs \<Longrightarrow> (\<forall>j < k. \<not> isl (call_result update bs w j)) \<Longrightarrow>
   call_result update bs w k = Inl e \<Longrightarrow>
     for_each (logged update) bs (w, log)
       = (Inl e, (world_after update (take (Suc k) bs) w, log @ take (Suc k) bs))"
proof (induction bs arbitrary: w log k)
  case Nil
  then show ?case by simp
next
  case (Cons b bs)
  show ?case
  proof (cases k)
    case 0
    with Cons.prems(3) obtain w' where u: "update b w = (Inl e, w')"
      by (cases "update b w") (auto simp: call_result_def world_after_def)
    with 0 show ?thesis by (simp add: logged_def world_after_def)
  next
    case (Suc k')
    with Cons.prems(2) have "\<not> isl (call_result update (b # bs) w 0)" by blast
    then obtain r w' where u: "update b w = (Inr r, w')"
      by (cases "update b w"; cases "fst (update b w)") (auto simp: call_result_def world_after_def)
    have 1: "k' < length bs" using Cons.prems(1) Suc by simp
    have 2: "\<forall>j < k'. \<not> isl (call_result update bs w' j)"
    proof (intro allI impI)
      fix j assume "j < k'"
      then have "\<not> isl (call_result update (b # bs) w (Suc j))" using Cons.prems(2) Suc by simp
      then show "\<not> isl (call_result update bs w' j)" by (simp add: call_result_Suc u)
    qed
    have 3: "call_result update bs w' k' = Inl e"
      using Cons.prems(3) Suc by (simp add: call_result_Suc u)
    from Cons.IH [OF 1 2 3, of "log @ [b]"] u Suc show ?thesis
      by (simp add: logged_def world_after_Cons)
  qed
qed

lemma divide_py_sizes:
  assumes "0 < n"
  shows "\<exists>bs. divide_py lst n = Inr bs
     \<and> map length bs = replicate (length lst div nat n) (nat n)
          @ (if length lst mod nat n = 0 then [] else [length lst mod nat n])"
proof -
  define m where "m = nat n"
  define L where "L = length lst"
  define q where "q = L div m"
  have m: "0 < m" using assms by (simp add: m_def)
  let ?f = "\<lambda>k. take m (drop (k * m) lst)"
  have full: "map length (map ?f [0 ..< q]) = replicate q m"
  proof -
    have "length (?f k) = m" if "k < q" for k
    proof -
      from that have "Suc k \<le> q" by simp
      then have "Suc k * m \<le> q * m" by (rule mult_le_mono1)
      also have "\<dots> \<le> L" by (simp add: q_def)
      finally show ?thesis by (simp add: L_def)
    qed
    then have "map length (map ?f [0 ..< q]) = map (\<lambda>k. m) [0 ..< q]" by simp
    then show ?thesis by (simp add: map_replicate_const)
  qed
  have lastlen: "length (?f q) = L mod m"
  proof -
    have "L - q * m = L mod m" unfolding q_def by (rule minus_div_mult_eq_mod)
    moreover have "L mod m < m" using m by simp
    ultimately show ?thesis by (simp add: L_def)
  qed
  have "divide_py lst n = Inr (map ?f [0 ..< (L + m - 1) div m])"
    unfolding L_def m_def by (rule divide_py_pos [OF assms])
  moreover have "map length (map ?f [0 ..< (L + m - 1) div m])
      = replicate q m @ (if L mod m = 0 then [] else [L mod m])"
  proof (cases "L mod m = 0")
    case True
    then have "(L + m - 1) div m = q" using chunk_count [OF m, of L] by (simp add: q_def)
    with full True show ?thesis by simp
  next
    case False
    then have "(L + m - 1) div m = Suc q" using chunk_count [OF m, of L] by (simp add: q_def)
    then have "map length (map ?f [0 ..< (L + m - 1) div m])
        = map length (map ?f [0 ..< q]) @ [length (?f q)]" by simp
    with full lastlen False show ?thesis by simp
  qed
  ultimately show ?thesis unfolding q_def L_def m_def by blast
qed

lemma upload_stocks_unfold:
  assumes "get_offer_ids get_product_list s = Some (Inr K, s1)"
    and "create_stocks F K = (Inr stocks, rest)"
  shows "upload_stocks get_product_list update F s =
     Some (case submit_batches update stocks 100 s1 of
             (Inl e, s2) \<Rightarrow> (Inl e, s2)
           | (Inr u, s2) \<Rightarrow> (Inr (filter (\<lambda>r. stock r \<noteq> 0) stocks, stocks), s2))"
  using assms by (simp add: upload_stocks_def split: prod.splits sum.splits)

text \<open>
  Claim C2. For a list of length \<open>L\<close> and a batch size \<open>n > 0\<close> there are
  \<open>ceil(L / n)\<close> batches, of sizes \<open>n, ..., n\<close> and then \<open>L mod n\<close> when that is
  not zero (sizes 500, 500, 200 for 1200 records and \<open>n = 500\<close>). When every call
  succeeds, the calls made are exactly these batches, in order. When call \<open>k\<close> is the
  first to fail, the calls made are the batches up to and including batch \<open>k\<close>, no
  later batch is sent, and the error of that call is the result. \<open>upload_stocks\<close> sends
  its stock list in this way with \<open>n = 100\<close> and passes the error on to its caller.
\<close>

theorem batches_submitted_in_order:
  assumes "0 < n"
  shows "\<exists>bs. divide_py lst n = Inr bs
     \<and> length bs = (length lst + nat n - 1) div nat n
     \<and> map length bs = replicate (length lst div nat n) (nat n)
          @ (if length lst mod nat n = 0 then [] else [length lst mod nat n])
     \<and> (length lst = 1200 \<and> n = 500 \<longrightarrow> map length bs = [500, 500, 200])
     \<and> ((\<forall>j < length bs. \<not> isl (call_result update bs w j)) \<longrightarrow>
          submit_batches (logged update) lst n (w, [])
            = (Inr (), (world_after update bs w, bs)))
     \<and> (\<forall>k e. k < length bs \<and> (\<forall>j < k. \<not> isl (call_result update bs w j))
            \<and> call_result update bs w k = Inl e \<longrightarrow>
          submit_batches (logged update) lst n (w, [])
            = (Inl e, (world_after update (take (Suc k) bs) w, take (Suc k) bs)))
     \<and> (get_offer_ids get_product_list s = Some (Inr K, s1)
          \<and> create_stocks F K = (Inr stocks, rest) \<longrightarrow>
        upload_stocks get_product_list update_stocks F s =
          Some (case submit_batches update_stocks stocks 100 s1 of
                  (Inl e, s2) \<Rightarrow> (Inl e, s2)
                | (Inr u, s2) \<Rightarrow> (Inr (filter (\<lambda>r. stock r \<noteq> 0) stocks, stocks), s2)))"
proof -
  from divide_py_sizes [OF assms, of lst] obtain bs where
    d: "divide_py lst n = Inr bs" and
    sz: "map length bs = replicate (length lst div nat n) (nat n)
          @ (if length lst mod nat n = 0 then [] else [length lst mod nat n])"
    by blast
  have "Inr bs = (Inr (map (\<lambda>k. take (nat n) (drop (k * nat n) lst))
                   [0 ..< (length lst + nat n - 1) div nat n]) :: error + 'a list list)"
    unfolding d [symmetric] by (rule divide_py_pos [OF assms])
  then have len: "length bs = (length lst + nat n - 1) div nat n" by simp
  have ex: "map length bs = [500, 500, 200]" if "length lst = 1200 \<and> n = 500"
    unfolding sz using that by (simp add: numeral_2_eq_2)
  have ok: "submit_batches (logged update) lst n (w, [])
            = (Inr (), (world_after update bs w, bs))"
    if "\<forall>j < length bs. \<not> isl (call_result update bs w j)"
    using for_each_logged_ok [OF that, of "[]"] by (simp add: submit_batches_def d)
  have fail: "submit_batches (logged update) lst n (w, [])
            = (Inl e, (world_after update (take (Suc k) bs) w, take (Suc k) bs))"
    if "k < length bs \<and> (\<forall>j < k. \<not> isl (call_result update bs w j))
            \<and> call_result update bs w k = Inl e" for k e
  proof -
    from that have 1: "k < length bs" and 2: "\<forall>j < k. \<not> isl (call_result update bs w j)"
      and 3: "call_result update bs w k = Inl e" by blast+
    from for_each_logged_fail [OF 1 2 3, of "[]"] show ?thesis
      by (simp add: submit_batches_def d)
  qed
  have up: "upload_stocks get_product_list update_stocks F s =
          Some (case submit_batches update_stocks stocks 100 s1 of
                  (Inl e, s2) \<Rightarrow> (Inl e, s2)
                | (Inr u, s2) \<Rightarrow> (Inr (filter (\<lambda>r. stock r \<noteq> 0) stocks, stocks), s2))"
    if "get_offer_ids get_product_list s = Some (Inr K, s1)
          \<and> create_stocks F K = (Inr stocks, rest)"
    using that by (intro upload_stocks_unfold) blast+
  show ?thesis
  proof (intro exI [of _ bs] conjI impI allI)
    show "divide_py lst n = Inr bs" by (rule d)
    show "length bs = (length lst + nat n - 1) div nat n" by (rule len)
    show "map length bs = replicate (length lst div nat n) (nat n)
          @ (if length lst mod nat n = 0 then [] else [length lst mod nat n])" by (rule sz)
    show "map length bs = [500, 500, 200]" if "length lst = 1200 \<and> n = 500"
      using that by (rule ex)
    show "submit_batches (logged update) lst n (w, [])
            = (Inr (), (world_after update bs w, bs))"
      if "\<forall>j < length bs. \<not> isl (call_result update bs w j)"
      using that by (rule ok)
    show "submit_batches (logged update) lst n (w, [])
            = (Inl e, (world_after update (take (Suc k) bs) w, take (Suc k) bs))"
      if "k < length bs \<and> (\<forall>j < k. \<not> isl (call_result update bs w j))
            \<and> call_result update bs w k = Inl e" for k e
      using that by (rule fail)
    show "upload_stocks get_product_list update_stocks F s =
          Some (case submit_batches update_stocks stocks 100 s1 of
                  (Inl e, s2) \<Rightarrow> (Inl e, s2)
                | (Inr u, s2) \<Rightarrow> (Inr (filter (\<lambda>r. stock r \<noteq> 0) stocks, stocks), s2))"
      if "get_offer_ids get_product_list s = Some (Inr K, s1)
          \<and> create_stocks F K = (Inr stocks, rest)"
      using that by (rule up)
  qed
qed

theorem batches_submitted_in_order_witness:
  "(0::int) < 3
   \<and> submit_batches (logged (\<lambda>b c. (if c = Suc 0 then Inl HTTPError else Inr (), Suc c)))
        [1, 2, 3, 4, 5, 6, 7 :: int] 3 (0, [])
       = (Inl HTTPError, (2, [[1, 2, 3], [4, 5, 6]]))
   \<and> upload_stocks
        (\<lambda>c v. (Inr \<lparr>result_items = [\<lparr>product_offer_id = lit ''A''\<rparr>], result_total = 1,
                       result_last_id = lit ''A''\<rparr>, v))
        (logged (\<lambda>b c. (if c = Suc 0 then Inl HTTPError else Inr (), Suc c)))
        [\<lparr>w_code = lit ''A'', w_count = lit ''5'', w_price = lit ''1.00''\<rparr>] (0, [])
       = Some (Inr ([\<lparr>offer_id = lit ''A'', stock = 5\<rparr>], [\<lparr>offer_id = lit ''A'', stock = 5\<rparr>]),
               (1, [[\<lparr>offer_id = lit ''A'', stock = 5\<rparr>]]))"
proof -
  let ?u = "\<lambda>(b::int list) c. (if c = Suc 0 then Inl HTTPError else Inr () :: error + unit, Suc c)"
  let ?us = "\<lambda>(b::stock_rec list) c. (if c = Suc 0 then Inl HTTPError else Inr () :: error + unit, Suc c)"
  let ?g = "\<lambda>(c::pystr) (v::nat \<times> stock_rec list list).
              (Inr \<lparr>result_items = [\<lparr>product_offer_id = lit ''A''\<rparr>], result_total = 1,
                       result_last_id = lit ''A''\<rparr> :: error + seller_page, v)"
  let ?F = "[\<lparr>w_code = lit ''A'', w_count = lit ''5'', w_price = lit ''1.00''\<rparr>]"
  let ?S = "[\<lparr>offer_id = lit ''A'', stock = 5\<rparr>]"
  have h: "(0::int) < 3" by simp
  have g: "get_offer_ids ?g (0, []) = Some (Inr [lit ''A''], (0, []))"
    by (simp add: get_offer_ids_def product_list_loop.simps)
  have five: "normalize_quantity (lit ''5'') = Inr 5"
    by (rule normalize_quantity_5)
  have c: "create_stocks ?F [lit ''A''] = (Inr ?S, [])"
    by (simp add: create_stocks_def five)
  from batches_submitted_in_order [OF h, where lst = "[1, 2, 3, 4, 5, 6, 7 :: int]"
      and update = ?u and w = 0 and get_product_list = ?g and s = "(0, [])" and K = "[lit ''A'']"
      and ?s1.0 = "(0, [])" and F = ?F and stocks = ?S and rest = "[]"
      and update_stocks = "logged ?us"]
  obtain bs where d: "divide_py [1, 2, 3, 4, 5, 6, 7 :: int] 3 = Inr bs"
    and fail: "\<And>k e. k < length bs \<and> (\<forall>j < k. \<not> isl (call_result ?u bs 0 j))
            \<and> call_result ?u bs 0 k = Inl e \<Longrightarrow>
          submit_batches (logged ?u) [1, 2, 3, 4, 5, 6, 7 :: int] 3 (0, [])
            = (Inl e, (world_after ?u (take (Suc k) bs) 0, take (Suc k) bs))"
    and up: "get_offer_ids ?g (0, []) = Some (Inr [lit ''A''], (0, []))
          \<and> create_stocks ?F [lit ''A''] = (Inr ?S, []) \<Longrightarrow>
        upload_stocks ?g (logged ?us) ?F (0, []) =
          Some (case submit_batches (logged ?us) ?S 100 (0, []) of
                  (Inl e, s2) \<Rightarrow> (Inl e, s2)
                | (Inr u, s2) \<Rightarrow> (Inr (filter (\<lambda>r. stock r \<noteq> 0) ?S, ?S), s2))"
    by blast
  from d have bs: "bs = [[1, 2, 3], [4, 5, 6], [7]]" by (simp add: divide_example)
  have "submit_batches (logged ?u) [1, 2, 3, 4, 5, 6, 7 :: int] 3 (0, [])
            = (Inl HTTPError, (world_after ?u (take (Suc 1) bs) 0, take (Suc 1) bs))"
    by (rule fail) (simp add: bs call_result_def world_after_def less_Suc_eq)
  then have 1: "submit_batches (logged ?u) [1, 2, 3, 4, 5, 6, 7 :: int] 3 (0, [])
       = (Inl HTTPError, (2, [[1, 2, 3], [4, 5, 6]]))"
    by (simp add: bs world_after_def)
  have s: "submit_batches (logged ?us) ?S 100 (0, []) = (Inr (), (1, [?S]))"
    by (simp add: submit_batches_def divide_py_pos logged_def)
  from up [OF conjI [OF g c]] have 2: "upload_stocks ?g (logged ?us) ?F (0, [])
       = Some (Inr (?S, ?S), (1, [?S]))"
    by (simp add: s)
  from h 1 2 show ?thesis by blast
qed


section \<open>Properties of get_offer_ids\<close>

lemma serve_single:
  "serve fetch nxt c w [p] = Some w' \<Longrightarrow> fetch c w = (Inr p, w')"
  by (cases "fetch c w"; cases "fst (fetch c w)") (auto split: if_splits)

lemma serve_Cons:
  "serve fetch nxt c w (q # ps) = Some w' \<Longrightarrow>
     \<exists>w1. fetch c w = (Inr q, w1) \<and> serve fetch nxt (nxt q) w1 ps = Some w'"
  by (cases "fetch c w"; cases "fst (fetch c w)") (auto split: if_splits)

lemma product_list_loop_pages:
  "serve get_product_list result_last_id c w (ps @ [p]) = Some w' \<Longrightarrow>
   (\<forall>k < length ps. result_total (ps ! k)
       \<noteq> int (length (acc @ concat (map result_items (take (Suc k) ps))))) \<Longrightarrow>
   result_total p = int (length (acc @ concat (map result_items (ps @ [p])))) \<Longrightarrow>
   product_list_loop get_product_list c acc w
     = Some (Inr (acc @ concat (map result_items (ps @ [p]))), w')"
proof (induction ps arbitrary: c acc w)
  case Nil
  from Nil.prems(1) have f: "get_product_list c w = (Inr p, w')"
    by (simp add: serve_single)
  show ?case
    using Nil.prems(3) by (subst product_list_loop.simps) (simp add: f)
next
  case (Cons q ps)
  from Cons.prems(1) have "serve get_product_list result_last_id c w (q # (ps @ [p])) = Some w'"
    by simp
  from serve_Cons [OF this] obtain w1 where f: "get_product_list c w = (Inr q, w1)"
    and s: "serve get_product_list result_last_id (result_last_id q) w1 (ps @ [p]) = Some w'"
    by blast
  from Cons.prems(2) [rule_format, of 0]
  have ne: "result_total q \<noteq> int (length (acc @ result_items q))" by simp
  have 2: "\<forall>k < length ps. result_total (ps ! k)
       \<noteq> int (length ((acc @ result_items q) @ concat (map result_items (take (Suc k) ps))))"
  proof (intro allI impI)
    fix k assume "k < length ps"
    then have "Suc k < length (q # ps)" by simp
    from Cons.prems(2) [rule_format, OF this]
    show "result_total (ps ! k)
       \<noteq> int (length ((acc @ result_items q) @ concat (map result_items (take (Suc k) ps))))"
      by simp
  qed
  have 3: "result_total p = int (length ((acc @ result_items q) @ concat (map result_items (ps @ [p]))))"
    using Cons.prems(3) by simp
  from Cons.IH [OF s 2 3] have
    "product_list_loop get_product_list (result_last_id q) (acc @ result_items q) w1
       = Some (Inr (acc @ concat (map result_items ((q # ps) @ [p]))), w')"
    by simp
  then show ?case
    using ne by (subst product_list_loop.simps) (simp add: f)
qed

lemma market_product_list_loop_pages:
  "serve get_product_list token_cursor c w (ps @ [p]) = Some w' \<Longrightarrow>
   (\<forall>q \<in> set ps. \<not> no_more q) \<Longrightarrow> no_more p \<Longrightarrow>
   market_product_list_loop get_product_list c acc w
     = Some (Inr (acc @ concat (map offerMappingEntries (ps @ [p]))), w')"
proof (induction ps arbitrary: c acc w)
  case Nil
  from Nil.prems(1) have f: "get_product_list c w = (Inr p, w')"
    by (simp add: serve_single)
  show ?case
    using Nil.prems(3)
    by (subst market_product_list_loop.simps) (auto simp: f no_more_def split: option.splits)
next
  case (Cons q ps)
  from Cons.prems(1) have "serve get_product_list token_cursor c w (q # (ps @ [p])) = Some w'"
    by simp
  from serve_Cons [OF this] obtain w1 where f: "get_product_list c w = (Inr q, w1)"
    and s: "serve get_product_list token_cursor (token_cursor q) w1 (ps @ [p]) = Some w'"
    by blast
  from Cons.prems(2) have "\<not> no_more q" by simp
  then obtain t where t: "nextPageToken q = Some t" "t \<noteq> []"
    by (cases "nextPageToken q") (auto simp: no_more_def)
  then have tc: "token_cursor q = t" by (simp add: token_cursor_def)
  from Cons.prems(2) have 2: "\<forall>q \<in> set ps. \<not> no_more q" by simp
  from Cons.IH [OF s 2 Cons.prems(3)] have
    "market_product_list_loop get_product_list t (acc @ offerMappingEntries q) w1
       = Some (Inr (acc @ concat (map offerMappingEntries ((q # ps) @ [p]))), w')"
    by (simp add: tc)
  then show ?case
    using t by (subst market_product_list_loop.simps) (simp add: f)
qed

text \<open>
  Claim C9. When the page-fetch capability serves a sequence of pages whose last page is
  the first to signal the end (for the seller: the first page after which \<open>total\<close>
  equals the number of entries accumulated; for the market: the first page with no or
  an empty next-page token), \<open>get_offer_ids\<close> terminates and returns the offer ids of
  all entries of these pages, in order across the pages and with duplicates kept.
\<close>

theorem get_offer_ids_terminates:
  "(serve get_product_list result_last_id [] w (ps @ [p]) = Some w'
      \<and> (\<forall>k < length ps. result_total (ps ! k)
             \<noteq> int (length (concat (map result_items (take (Suc k) ps)))))
      \<and> result_total p = int (length (concat (map result_items (ps @ [p]))))
    \<longrightarrow> get_offer_ids get_product_list w
          = Some (Inr (map product_offer_id (concat (map result_items (ps @ [p])))), w'))
   \<and> (serve market_get_product_list token_cursor [] v (qs @ [q]) = Some v'
      \<and> (\<forall>r \<in> set qs. \<not> no_more r) \<and> no_more q
    \<longrightarrow> market_get_offer_ids market_get_product_list v
          = Some (Inr (map shopSku (concat (map offerMappingEntries (qs @ [q])))), v'))"
proof (intro conjI impI)
  assume a: "serve get_product_list result_last_id [] w (ps @ [p]) = Some w'
      \<and> (\<forall>k < length ps. result_total (ps ! k)
             \<noteq> int (length (concat (map result_items (take (Suc k) ps)))))
      \<and> result_total p = int (length (concat (map result_items (ps @ [p]))))"
  then have 1: "serve get_product_list result_last_id [] w (ps @ [p]) = Some w'"
    and 2: "\<forall>k < length ps. result_total (ps ! k)
             \<noteq> int (length ([] @ concat (map result_items (take (Suc k) ps))))"
    and 3: "result_total p = int (length ([] @ concat (map result_items (ps @ [p]))))"
    by simp_all
  from product_list_loop_pages [OF 1 2 3]
  show "get_offer_ids get_product_list w
          = Some (Inr (map product_offer_id (concat (map result_items (ps @ [p])))), w')"
    by (simp add: get_offer_ids_def)
next
  assume a: "serve market_get_product_list token_cursor [] v (qs @ [q]) = Some v'
      \<and> (\<forall>r \<in> set qs. \<not> no_more r) \<and> no_more q"
  then have 1: "serve market_get_product_list token_cursor [] v (qs @ [q]) = Some v'"
    and 2: "\<forall>r \<in> set qs. \<not> no_more r" and 3: "no_more q"
    by simp_all
  from market_product_list_loop_pages [OF 1 2 3, of "[]"]
  show "market_get_offer_ids market_get_product_list v
          = Some (Inr (map shopSku (concat (map offerMappingEntries (qs @ [q])))), v')"
    by (simp add: market_get_offer_ids_def)
qed

theorem get_offer_ids_terminates_witness:
  "get_offer_ids
     (\<lambda>c n. (Inr (if n = 0
                  then \<lparr>result_items = [\<lparr>product_offer_id = lit ''A''\<rparr>, \<lparr>product_offer_id = lit ''B''\<rparr>],
                        result_total = 3, result_last_id = lit ''B''\<rparr>
                  else \<lparr>result_items = [\<lparr>product_offer_id = lit ''A''\<rparr>],
                        result_total = 3, result_last_id = lit ''A''\<rparr>), Suc n)) (0::nat)
     = Some (Inr [lit ''A'', lit ''B'', lit ''A''], 2)
   \<and> market_get_offer_ids
     (\<lambda>c n. (Inr (if c = []
                  then \<lparr>offerMappingEntries = [\<lparr>shopSku = lit ''A''\<rparr>], nextPageToken = Some (lit ''t'')\<rparr>
                  else \<lparr>offerMappingEntries = [\<lparr>shopSku = lit ''A''\<rparr>], nextPageToken = None\<rparr>),
              Suc n)) (0::nat)
     = Some (Inr [lit ''A'', lit ''A''], 2)"
proof -
  let ?p0 = "\<lparr>result_items = [\<lparr>product_offer_id = lit ''A''\<rparr>, \<lparr>product_offer_id = lit ''B''\<rparr>],
                        result_total = 3, result_last_id = lit ''B''\<rparr>"
  let ?p1 = "\<lparr>result_items = [\<lparr>product_offer_id = lit ''A''\<rparr>],
                        result_total = 3, result_last_id = lit ''A''\<rparr>"
  let ?g = "\<lambda>(c::pystr) (n::nat). (Inr (if n = 0 then ?p0 else ?p1) :: error + seller_page, Suc n)"
  let ?q0 = "\<lparr>offerMappingEntries = [\<lparr>shopSku = lit ''A''\<rparr>], nextPageToken = Some (lit ''t'')\<rparr>"
  let ?q1 = "\<lparr>offerMappingEntries = [\<lparr>shopSku = lit ''A''\<rparr>], nextPageToken = None\<rparr>"
  let ?m = "\<lambda>(c::pystr) (n::nat). (Inr (if c = [] then ?q0 else ?q1) :: error + market_page, Suc n)"
  have t: "lit ''t'' \<noteq> []" by (simp add: lit_def)
  have s: "serve ?g result_last_id [] 0 ([?p0] @ [?p1]) = Some 2
      \<and> (\<forall>k < length [?p0]. result_total ([?p0] ! k)
             \<noteq> int (length (concat (map result_items (take (Suc k) [?p0])))))
      \<and> result_total ?p1 = int (length (concat (map result_items ([?p0] @ [?p1]))))"
    by simp
  have m: "serve ?m token_cursor [] 0 ([?q0] @ [?q1]) = Some 2
      \<and> (\<forall>r \<in> set [?q0]. \<not> no_more r) \<and> no_more ?q1"
    by (simp add: token_cursor_def no_more_def t)
  note th = get_offer_ids_terminates [of ?g 0 "[?p0]" ?p1 2 ?m 0 "[?q0]" ?q1 2]
  from th s have 1: "get_offer_ids ?g 0
       = Some (Inr (map product_offer_id (concat (map result_items ([?p0] @ [?p1])))), 2)"
    by blast
  from th m have 2: "market_get_offer_ids ?m 0
       = Some (Inr (map shopSku (concat (map offerMappingEntries ([?q0] @ [?q1])))), 2)"
    by blast
  from 1 2 show ?thesis by simp
qed


section \<open>The offer list after create_stocks\<close>

lemma count_list_fold_remove1:
  "count_list (fold remove1 cs xs) c = count_list xs c - count_list cs c"
proof -
  have "count (mset (fold remove1 cs xs)) c = count (mset xs - mset cs) c"
    by (simp only: mset_fold_remove1)
  then show ?thesis by (simp only: count_diff count_mset)
qed

lemma remaining_iff:
  assumes "create_stocks F K = (Inr stocks, rest)"
  shows "c \<in> set rest \<longleftrightarrow> count_list (map w_code F) c < count_list K c"
proof -
  from assms have r: "rest = fold remove1 (map w_code (matched F K)) K"
    by (simp add: create_stocks_Inr_iff)
  have "count_list rest c = count_list K c - min (count_list (map w_code F) c) (count_list K c)"
    unfolding r count_list_fold_remove1 by (simp add: matched_def count_matched_from)
  then show ?thesis by (auto simp: in_set_count_list min_def)
qed

lemma prices_after_stocks:
  assumes "create_stocks F K = (Inr stocks, rest)"
  shows "create_prices F rest =
     map seller_price (filter (\<lambda>w. count_list (map w_code F) (w_code w) < count_list K (w_code w)) F)"
  unfolding create_prices_eq by (simp add: remaining_iff [OF assms])

lemma count_list_distinct: "distinct xs \<Longrightarrow> count_list xs c \<le> 1"
  by (induction xs) (auto simp: count_list_0_iff)

lemma prices_after_stocks_distinct:
  assumes "create_stocks F K = (Inr stocks, rest)" and "distinct K"
  shows "create_prices F rest = []"
proof -
  have "\<not> count_list (map w_code F) (w_code w) < count_list K (w_code w)" if "w \<in> set F" for w
  proof -
    from that have "w_code w \<in> set (map w_code F)" by simp
    then have "0 < count_list (map w_code F) (w_code w)" by (simp only: in_set_count_list)
    moreover have "count_list K (w_code w) \<le> 1" by (rule count_list_distinct [OF assms(2)])
    ultimately show ?thesis by simp
  qed
  then show ?thesis unfolding prices_after_stocks [OF assms(1)] by (simp add: filter_empty_conv)
qed

lemma main_try_unfold:
  assumes "get_offer_ids get_product_list w = Some (Inr K, w1)"
    and "download_stock w1 = (Inr F, w2)"
    and "create_stocks F K = (Inr stocks, rest)"
    and "submit_batches update_stocks stocks 100 w2 = (Inr u, w3)"
  shows "main_try get_product_list download_stock update_stocks update_price w
     = Some (submit_batches update_price (create_prices F rest) 900 w3)"
  using assms by (simp add: main_try_def)

text \<open>
  Claim C10, as stated, fails in its last part. With the offer \<open>A\<close> listed twice and
  one feed record with the code \<open>A\<close>, that record matches during stock creation, one
  \<open>A\<close> stays in the caller's list, and \<open>main\<close> then sends a price record for
  \<open>A\<close>: a price record for a feed code that did match.
\<close>

theorem duplicate_offer_price_counterexample:
  "create_stocks [\<lparr>w_code = lit ''A'', w_count = lit ''5'', w_price = lit ''1.00''\<rparr>]
       [lit ''A'', lit ''A'']
     = (Inr [\<lparr>offer_id = lit ''A'', stock = 5\<rparr>, \<lparr>offer_id = lit ''A'', stock = 0\<rparr>], [lit ''A''])
   \<and> \<lparr>w_code = lit ''A'', w_count = lit ''5'', w_price = lit ''1.00''\<rparr>
       \<in> set (matched [\<lparr>w_code = lit ''A'', w_count = lit ''5'', w_price = lit ''1.00''\<rparr>]
                 [lit ''A'', lit ''A''])
   \<and> create_prices [\<lparr>w_code = lit ''A'', w_count = lit ''5'', w_price = lit ''1.00''\<rparr>] [lit ''A'']
     = [seller_price \<lparr>w_code = lit ''A'', w_count = lit ''5'', w_price = lit ''1.00''\<rparr>]
   \<and> main_try
       (\<lambda>c s. (Inr \<lparr>result_items = [\<lparr>product_offer_id = lit ''A''\<rparr>, \<lparr>product_offer_id = lit ''A''\<rparr>],
                      result_total = 2, result_last_id = lit ''A''\<rparr>, s))
       (\<lambda>s. (Inr [\<lparr>w_code = lit ''A'', w_count = lit ''5'', w_price = lit ''1.00''\<rparr>], s))
       (\<lambda>b s. (Inr (), s))
       (logged (\<lambda>b s. (Inr (), s)))
       ((), [])
     = Some (Inr (), ((), [[seller_price \<lparr>w_code = lit ''A'', w_count = lit ''5'', w_price = lit ''1.00''\<rparr>]]))"
proof -
  let ?a = "\<lparr>w_code = lit ''A'', w_count = lit ''5'', w_price = lit ''1.00''\<rparr>"
  have five: "normalize_quantity (lit ''5'') = Inr 5"
    by (rule normalize_quantity_5)
  have c: "create_stocks [?a] [lit ''A'', lit ''A'']
     = (Inr [\<lparr>offer_id = lit ''A'', stock = 5\<rparr>, \<lparr>offer_id = lit ''A'', stock = 0\<rparr>], [lit ''A''])"
    by (simp add: create_stocks_def five)
  have p: "create_prices [?a] [lit ''A''] = [seller_price ?a]" by simp
  have m: "?a \<in> set (matched [?a] [lit ''A'', lit ''A''])" by (simp add: matched_def)
  have g: "get_offer_ids
       (\<lambda>c s. (Inr \<lparr>result_items = [\<lparr>product_offer_id = lit ''A''\<rparr>, \<lparr>product_offer_id = lit ''A''\<rparr>],
                      result_total = 2, result_last_id = lit ''A''\<rparr>, s)) ((), [])
     = Some (Inr [lit ''A'', lit ''A''], ((), ([] :: price_rec list list)))"
    by (simp add: get_offer_ids_def product_list_loop.simps)
  have s: "submit_batches (\<lambda>b s. (Inr (), s))
       [\<lparr>offer_id = lit ''A'', stock = 5\<rparr>, \<lparr>offer_id = lit ''A'', stock = 0\<rparr>] 100
       ((), ([] :: price_rec list list)) = (Inr (), ((), []))"
    by (simp add: submit_batches_def divide_py_pos)
  have q: "submit_batches (logged (\<lambda>b s. (Inr (), s))) [seller_price ?a] 900 ((), [])
     = (Inr (), ((), [[seller_price ?a]]))"
    by (simp add: submit_batches_def divide_py_pos logged_def)
  from c p m g s q show ?thesis by (simp add: main_try_def)
qed


text \<open>
  Claim C10, amended. \<open>create_stocks\<close> changes the caller's list: every matched feed
  record removes one occurrence of its code, so that after the call the list holds
  exactly the offers that were zero-filled, and an offer id is in it exactly when it
  occurs more often in the original list than in the feed. \<open>main\<close> of \<open>seller.py\<close>
  passes this list to \<open>create_prices\<close>; price records are therefore emitted exactly
  for the feed records whose code occurs more often in the original offer list than in
  the feed, a feed code that is no known offer gets no price record, and when the offer
  list has no duplicates no price record is emitted at all.
\<close>

theorem stocks_consume_offer_ids:
  "(create_stocks F K = (Inr stocks, rest) \<longrightarrow>
      rest = fold remove1 (map w_code (matched F K)) K
      \<and> stocks = map matched_stock (matched F K) @ map zero_stock rest
      \<and> (\<forall>c. c \<in> set rest \<longleftrightarrow> count_list (map w_code F) c < count_list K c)
      \<and> create_prices F rest =
          map seller_price
            (filter (\<lambda>w. count_list (map w_code F) (w_code w) < count_list K (w_code w)) F)
      \<and> (\<forall>w \<in> set F. w_code w \<notin> set K
            \<longrightarrow> w_code w \<notin> price_offer_id ` set (create_prices F rest))
      \<and> (distinct K \<longrightarrow> create_prices F rest = []))
   \<and> (get_offer_ids get_product_list w = Some (Inr K, w1)
        \<and> download_stock w1 = (Inr F, w2)
        \<and> create_stocks F K = (Inr stocks, rest)
        \<and> submit_batches update_stocks stocks 100 w2 = (Inr u, w3) \<longrightarrow>
      main_try get_product_list download_stock update_stocks update_price w
        = Some (submit_batches update_price (create_prices F rest) 900 w3))"
proof (intro conjI impI allI ballI)
  assume a: "create_stocks F K = (Inr stocks, rest)"
  then show "rest = fold remove1 (map w_code (matched F K)) K"
    and "stocks = map matched_stock (matched F K) @ map zero_stock rest"
    by (simp_all add: create_stocks_Inr_iff)
  show "c \<in> set rest \<longleftrightarrow> count_list (map w_code F) c < count_list K c" for c
    by (rule remaining_iff [OF a])
  show "create_prices F rest =
          map seller_price
            (filter (\<lambda>w. count_list (map w_code F) (w_code w) < count_list K (w_code w)) F)"
    by (rule prices_after_stocks [OF a])
next
  fix x :: watch
  assume a: "create_stocks F K = (Inr stocks, rest)" and "w_code x \<notin> set K"
  then have "count_list K (w_code x) = 0" by (simp add: count_list_0_iff)
  then have "w_code x \<notin> set rest" unfolding remaining_iff [OF a] by simp
  then show "w_code x \<notin> price_offer_id ` set (create_prices F rest)"
    by (auto simp: create_prices_eq seller_price_def)
next
  assume "create_stocks F K = (Inr stocks, rest)" "distinct K"
  then show "create_prices F rest = []" by (rule prices_after_stocks_distinct)
next
  assume "get_offer_ids get_product_list w = Some (Inr K, w1)
        \<and> download_stock w1 = (Inr F, w2)
        \<and> create_stocks F K = (Inr stocks, rest)
        \<and> submit_batches update_stocks stocks 100 w2 = (Inr u, w3)"
  then show "main_try get_product_list download_stock update_stocks update_price w
        = Some (submit_batches update_price (create_prices F rest) 900 w3)"
    by (intro main_try_unfold) blast+
qed

theorem stocks_consume_offer_ids_witness:
  "create_stocks [\<lparr>w_code = lit ''A'', w_count = lit ''5'', w_price = lit ''1.00''\<rparr>,
                  \<lparr>w_code = lit ''Z'', w_count = lit ''3'', w_price = lit ''2.00''\<rparr>]
       [lit ''A'', lit ''B'']
     = (Inr [\<lparr>offer_id = lit ''A'', stock = 5\<rparr>, \<lparr>offer_id = lit ''B'', stock = 0\<rparr>], [lit ''B''])
   \<and> distinct [lit ''A'', lit ''B'']
   \<and> lit ''Z'' \<notin> set [lit ''A'', lit ''B'']
   \<and> create_prices [\<lparr>w_code = lit ''A'', w_count = lit ''5'', w_price = lit ''1.00''\<rparr>,
                      \<lparr>w_code = lit ''Z'', w_count = lit ''3'', w_price = lit ''2.00''\<rparr>]
         [lit ''B''] = []
   \<and> main_try
       (\<lambda>c s. (Inr \<lparr>result_items = [\<lparr>product_offer_id = lit ''A''\<rparr>, \<lparr>product_offer_id = lit ''B''\<rparr>],
                      result_total = 2, result_last_id = lit ''B''\<rparr>, s))
       (\<lambda>s. (Inr [\<lparr>w_code = lit ''A'', w_count = lit ''5'', w_price = lit ''1.00''\<rparr>,
                    \<lparr>w_code = lit ''Z'', w_count = lit ''3'', w_price = lit ''2.00''\<rparr>], s))
       (\<lambda>b s. (Inr (), s))
       (logged (\<lambda>b s. (Inr (), s)))
       ((), ([] :: price_rec list list))
     = Some (Inr (), ((), []))"
proof -
  let ?a = "\<lparr>w_code = lit ''A'', w_count = lit ''5'', w_price = lit ''1.00''\<rparr>"
  let ?z = "\<lparr>w_code = lit ''Z'', w_count = lit ''3'', w_price = lit ''2.00''\<rparr>"
  let ?K = "[lit ''A'', lit ''B'']"
  let ?S = "[\<lparr>offer_id = lit ''A'', stock = 5\<rparr>, \<lparr>offer_id = lit ''B'', stock = 0\<rparr>]"
  let ?g = "\<lambda>(c::pystr) (s::unit \<times> price_rec list list).
       (Inr \<lparr>result_items = [\<lparr>product_offer_id = lit ''A''\<rparr>, \<lparr>product_offer_id = lit ''B''\<rparr>],
                      result_total = 2, result_last_id = lit ''B''\<rparr> :: error + seller_page, s)"
  let ?d = "\<lambda>s::unit \<times> price_rec list list. (Inr [?a, ?z] :: error + watch list, s)"
  let ?us = "\<lambda>(b::stock_rec list) (s::unit \<times> price_rec list list). (Inr () :: error + unit, s)"
  let ?up = "logged (\<lambda>(b::price_rec list) (s::unit). (Inr () :: error + unit, s))"
  have five: "normalize_quantity (lit ''5'') = Inr 5"
    by (rule normalize_quantity_5)
  have ne: "lit ''A'' \<noteq> lit ''B''" "lit ''Z'' \<noteq> lit ''A''" "lit ''Z'' \<noteq> lit ''B''"
    by (simp_all add: lit_def)
  have c: "create_stocks [?a, ?z] ?K = (Inr ?S, [lit ''B''])"
    by (simp add: create_stocks_def five ne)
  have d: "distinct ?K" and z: "lit ''Z'' \<notin> set ?K" using ne by simp_all
  have g: "get_offer_ids ?g ((), []) = Some (Inr ?K, ((), []))"
    by (simp add: get_offer_ids_def product_list_loop.simps)
  have dl: "?d ((), []) = (Inr [?a, ?z], ((), []))" by simp
  have s: "submit_batches ?us ?S 100 ((), []) = (Inr (), ((), []))"
    by (simp add: submit_batches_def divide_py_pos)
  note th = stocks_consume_offer_ids [of "[?a, ?z]" ?K ?S "[lit ''B'']" ?g "((), [])" "((), [])"
      ?d "((), [])" ?us "()" "((), [])" ?up]
  from th c d have p: "create_prices [?a, ?z] [lit ''B''] = []" by blast
  from th g dl c s have "main_try ?g ?d ?us ?up ((), [])
      = Some (submit_batches ?up (create_prices [?a, ?z] [lit ''B'']) 900 ((), []))"
    by blast
  then have m: "main_try ?g ?d ?us ?up ((), []) = Some (Inr (), ((), []))"
    unfolding p by (simp add: submit_batches_def divide_py_pos)
  from c d z p m show ?thesis by blast
qed

end
